theory Spec2Isabelle
  imports Complex_Main "HOL-Library.Sublist"
begin

section \<open>Values of the program\<close>

text \<open>
  The program is \<^verbatim>\<open>Q4.py\<close>: a token-bucket rate limiter, a circuit breaker, a
  module-level dead-letter deque and the decorator \<^verbatim>\<open>resilient\<close>, whose inner
  function \<^verbatim>\<open>wrapper\<close> retries a call. Python floats are read as real numbers
  (no rounding, no infinities, no NaN), Python integers as \<open>int\<close>. The program is
  modelled as one thread runs it: the lock of the limiter is not modelled.

  An exception is its class name and the string \<^verbatim>\<open>str(e)\<close>; only classes derived
  from \<^verbatim>\<open>Exception\<close> are modelled, those line 75 catches.
\<close>

datatype exn = Exn (cls: string) (msg: string)

definition RuntimeError :: "string \<Rightarrow> exn" where
  "RuntimeError m = Exn ''RuntimeError'' m"

text \<open>Line 40: the error of an open breaker.\<close>

definition circuit_open :: exn where
  "circuit_open = RuntimeError ''circuit-open''"

text \<open>Line 71: the error the retry loop raises for itself on a retryable status.\<close>

definition retryable_error :: exn where
  "retryable_error = RuntimeError ''retryable''"

text \<open>
  Line 74: a bare \<^verbatim>\<open>raise\<close> in the \<^verbatim>\<open>try\<close> block, where no exception is being
  handled (the wrapper is taken to be called outside of any \<^verbatim>\<open>except\<close> block of its
  caller). Python raises this RuntimeError.
\<close>

definition no_active_exception :: exn where
  "no_active_exception = RuntimeError ''No active exception to reraise''"

text \<open>Line 69: \<^verbatim>\<open>resp['data']\<close> when the key is absent; \<^verbatim>\<open>str(KeyError('data'))\<close>.\<close>

definition key_error_data :: exn where
  "key_error_data = Exn ''KeyError'' ([CHR 0x27] @ ''data'' @ [CHR 0x27])"

text \<open>Python's \<^verbatim>\<open>needle in haystack\<close> on strings.\<close>

fun contains :: "string \<Rightarrow> string \<Rightarrow> bool" where
  "contains needle [] = (needle = [])"
| "contains needle (c # cs) = (prefix needle (c # cs) \<or> contains needle cs)"

text \<open>The decimal text of an integer, as an f-string prints it.\<close>

fun str_nat :: "nat \<Rightarrow> string" where
  "str_nat n = (if n < 10 then [''0123456789'' ! n]
                else str_nat (n div 10) @ [''0123456789'' ! (n mod 10)])"

declare str_nat.simps [simp del]

definition str_int :: "int \<Rightarrow> string" where
  "str_int i = (if i < 0 then ''-'' @ str_nat (nat (- i)) else str_nat (nat i))"

section \<open>DynamicRateLimiter\<close>

record limiter =
  rate :: real
  capacity :: int
  tokens :: real
  ts :: real

text \<open>\<^verbatim>\<open>__init__\<close>, with \<open>now\<close> the value of \<^verbatim>\<open>time.time()\<close>.\<close>

definition limiter_init :: "real \<Rightarrow> int \<Rightarrow> real \<Rightarrow> limiter" where
  "limiter_init rps cap now = \<lparr>rate = rps, capacity = cap, tokens = of_int cap, ts = now\<rparr>"

definition set_rate :: "real \<Rightarrow> limiter \<Rightarrow> limiter" where
  "set_rate rps s = s\<lparr>rate := max 0.001 rps\<rparr>"

text \<open>Lines 24 and 25: the refill at the clock reading \<open>now\<close>.\<close>

definition refill :: "real \<Rightarrow> limiter \<Rightarrow> limiter" where
  "refill now s =
     s\<lparr>tokens := min (of_int (capacity s)) (tokens s + (now - ts s) * rate s), ts := now\<rparr>"

text \<open>
  Lines 21 to 28: one turn of the loop of \<^verbatim>\<open>acquire\<close> under the lock. The result says
  whether the tokens were granted (the method returns) or not (it sleeps and polls again).
\<close>

definition acquire_poll :: "int \<Rightarrow> real \<Rightarrow> limiter \<Rightarrow> bool \<times> limiter" where
  "acquire_poll n now s =
     (let s' = refill now s
      in if of_int n \<le> tokens s' then (True, s'\<lparr>tokens := tokens s' - of_int n\<rparr>)
         else (False, s'))"

text \<open>
  A history of a limiter: calls of \<^verbatim>\<open>set_rate\<close> and turns of the loop of
  \<^verbatim>\<open>acquire(n)\<close>, each with its clock reading. \<open>observe\<close> lists every value the
  fields take: after a rate change, after a refill, after a deduction.
\<close>

datatype limiter_op = SetRate real | Poll int real

fun observe :: "limiter_op list \<Rightarrow> limiter \<Rightarrow> limiter list" where
  "observe [] s = []"
| "observe (SetRate r # ops) s = set_rate r s # observe ops (set_rate r s)"
| "observe (Poll n now # ops) s =
     refill now s # snd (acquire_poll n now s) # observe ops (snd (acquire_poll n now s))"

text \<open>The clock does not run backwards, and every request is for at least one token.\<close>

fun admissible :: "real \<Rightarrow> limiter_op list \<Rightarrow> bool" where
  "admissible t [] = True"
| "admissible t (SetRate r # ops) = admissible t ops"
| "admissible t (Poll n now # ops) = (1 \<le> n \<and> t \<le> now \<and> admissible now ops)"

definition tokens_in_range :: "limiter \<Rightarrow> bool" where
  "tokens_in_range s = (0 \<le> tokens s \<and> tokens s \<le> of_int (capacity s))"

section \<open>CircuitBreaker\<close>

record breaker =
  fail_threshold :: int
  reset_after :: real
  fail_count :: int
  open_until :: real

definition breaker_init :: "int \<Rightarrow> real \<Rightarrow> breaker" where
  "breaker_init thr reset = \<lparr>fail_threshold = thr, reset_after = reset, fail_count = 0, open_until = 0\<rparr>"

text \<open>
  \<^verbatim>\<open>before\<close> at the clock reading \<open>now\<close>: the error, or the breaker as the call
  leaves it.
\<close>

definition before :: "real \<Rightarrow> breaker \<Rightarrow> exn + breaker" where
  "before now b = (if now < open_until b then Inl circuit_open else Inr b)"

definition success :: "breaker \<Rightarrow> breaker" where
  "success b = b\<lparr>fail_count := 0\<rparr>"

text \<open>
  \<^verbatim>\<open>failure\<close>: line 46 is \<open>bump\<close>, line 48 is \<open>trip\<close>. The clock is read on
  line 48 only; \<open>now\<close> is that reading.
\<close>

definition bump :: "breaker \<Rightarrow> breaker" where
  "bump b = b\<lparr>fail_count := fail_count b + 1\<rparr>"

definition trip :: "real \<Rightarrow> breaker \<Rightarrow> breaker" where
  "trip now b = b\<lparr>open_until := now + reset_after b, fail_count := 0\<rparr>"

definition failure :: "real \<Rightarrow> breaker \<Rightarrow> breaker" where
  "failure now b =
     (let b1 = bump b in if fail_threshold b1 \<le> fail_count b1 then trip now b1 else b1)"

text \<open>Consecutive calls of \<^verbatim>\<open>failure\<close>, one per clock reading.\<close>

fun failures :: "real list \<Rightarrow> breaker \<Rightarrow> breaker" where
  "failures [] b = b"
| "failures (now # nows) b = failures nows (failure now b)"

section \<open>The dead-letter deque\<close>

text \<open>
  \<^verbatim>\<open>deque(maxlen=m).append(x)\<close>: the element is added on the right, and the leftmost
  element is dropped when the deque is then longer than \<open>m\<close>.
\<close>

definition deque_append :: "nat \<Rightarrow> 'a \<Rightarrow> 'a list \<Rightarrow> 'a list" where
  "deque_append m x xs = (let ys = xs @ [x] in if m < length ys then tl ys else ys)"

fun record_all :: "nat \<Rightarrow> 'a list \<Rightarrow> 'a list \<Rightarrow> 'a list" where
  "record_all m [] xs = xs"
| "record_all m (e # es) xs = record_all m es (deque_append m e xs)"

definition dead_letter_maxlen :: nat where
  "dead_letter_maxlen = 10000"

section \<open>The environment of a wrapped call\<close>

text \<open>
  The value under the key \<^verbatim>\<open>X-Rate-Limit-RPS\<close>, as lines 65 and 66 use it: a falsy
  value (\<^verbatim>\<open>None\<close>, the empty string, zero), a truthy value that \<^verbatim>\<open>float\<close> converts
  to the given number, or a truthy value that \<^verbatim>\<open>float\<close> rejects with the given
  exception.
\<close>

datatype hval = Falsy | Numeric real | Malformed exn

text \<open>
  The dictionary \<^verbatim>\<open>fn\<close> returns; each of its three keys may be absent. The status
  is taken to be an integer when present.
\<close>

record 'd resp =
  status :: "int option"
  headers :: "(string \<rightharpoonup> hval) option"
  data :: "'d option"

datatype 'd outcome = Returns "'d resp" | Raises exn

text \<open>An entry of the dead-letter deque, lines 73 and 78.\<close>

record ('a, 'k) entry =
  args :: 'a
  kw :: 'k
  reason :: string

text \<open>
  What a run does, in order: the calls of \<^verbatim>\<open>fn\<close> with their outcomes, the calls
  of \<^verbatim>\<open>set_rate\<close>, \<^verbatim>\<open>success\<close> and \<^verbatim>\<open>failure\<close>, the appends to
  \<^verbatim>\<open>dead_letter\<close>, the sleeps of line 30 and the sleeps of line 81.
\<close>

datatype ('a, 'k, 'd) event =
    Call "'d outcome"
  | RateSet real
  | Success
  | Failure
  | DeadLetter "('a, 'k) entry"
  | PollSleep real
  | Backoff real

text \<open>
  The objects the wrapper shares (limiter, breaker, deque) together with what its
  environment will answer: the successive values of \<^verbatim>\<open>time.time()\<close>, of
  \<^verbatim>\<open>random.random()\<close>, and the successive outcomes of \<^verbatim>\<open>fn\<close>. A run that asks
  for more answers than are listed has no result (\<open>None\<close>).
\<close>

record ('a, 'k, 'd) machine =
  rl :: limiter
  cb :: breaker
  dead_letter :: "('a, 'k) entry list"
  clock :: "real list"
  rands :: "real list"
  outs :: "'d outcome list"

definition time_time :: "('a, 'k, 'd) machine \<Rightarrow> (real \<times> ('a, 'k, 'd) machine) option" where
  "time_time m = (case clock m of [] \<Rightarrow> None | t # cl \<Rightarrow> Some (t, m\<lparr>clock := cl\<rparr>))"

definition random_random :: "('a, 'k, 'd) machine \<Rightarrow> (real \<times> ('a, 'k, 'd) machine) option" where
  "random_random m = (case rands m of [] \<Rightarrow> None | r # rs \<Rightarrow> Some (r, m\<lparr>rands := rs\<rparr>))"

definition call_fn :: "('a, 'k, 'd) machine \<Rightarrow> ('d outcome \<times> ('a, 'k, 'd) machine) option" where
  "call_fn m = (case outs m of [] \<Rightarrow> None | out # rest \<Rightarrow> Some (out, m\<lparr>outs := rest\<rparr>))"

definition dl_append :: "('a, 'k) entry \<Rightarrow> ('a, 'k, 'd) machine \<Rightarrow> ('a, 'k, 'd) machine" where
  "dl_append e m = m\<lparr>dead_letter := deque_append dead_letter_maxlen e (dead_letter m)\<rparr>"

section \<open>The retry loop\<close>

text \<open>
  \<^verbatim>\<open>rate.acquire(n)\<close>, lines 20 to 30: poll at each clock reading; when the tokens
  are not granted, draw a random number, sleep, and poll again.
\<close>

function acquire :: "int \<Rightarrow> ('a, 'k, 'd) machine \<Rightarrow>
    (('a, 'k, 'd) machine \<times> ('a, 'k, 'd) event list) option" where
  "acquire n m =
     (case time_time m of
        None \<Rightarrow> None
      | Some (now, m1) \<Rightarrow>
          if fst (acquire_poll n now (rl m1))
          then Some (m1\<lparr>rl := snd (acquire_poll n now (rl m1))\<rparr>, [])
          else (case random_random (m1\<lparr>rl := snd (acquire_poll n now (rl m1))\<rparr>) of
                  None \<Rightarrow> None
                | Some (r, m2) \<Rightarrow>
                    (case acquire n m2 of
                       None \<Rightarrow> None
                     | Some (m3, ev) \<Rightarrow> Some (m3, PollSleep (0.01 + r * 0.02) # ev))))"
  by pat_completeness auto
termination
  by (relation "measure (\<lambda>(n, m). length (clock m))")
     (auto simp: time_time_def random_random_def split: list.splits)

declare acquire.simps [simp del]

text \<open>\<^verbatim>\<open>breaker.failure()\<close> on the machine: the clock is read only on line 48.\<close>

definition cb_failure :: "('a, 'k, 'd) machine \<Rightarrow> ('a, 'k, 'd) machine option" where
  "cb_failure m =
     (let b1 = bump (cb m)
      in if fail_threshold b1 \<le> fail_count b1
         then (case time_time m of
                 None \<Rightarrow> None
               | Some (now, m1) \<Rightarrow> Some (m1\<lparr>cb := trip now b1\<rparr>))
         else Some (m\<lparr>cb := b1\<rparr>))"

text \<open>Line 64: \<^verbatim>\<open>resp.get('headers', {}).get('X-Rate-Limit-RPS')\<close>.\<close>

definition new_rps :: "'d resp \<Rightarrow> hval option" where
  "new_rps resp = (case headers resp of None \<Rightarrow> None | Some h \<Rightarrow> h ''X-Rate-Limit-RPS'')"

text \<open>
  Lines 65 and 66: the rate change, or the exception of \<^verbatim>\<open>float\<close>.
\<close>

definition adjust_rate :: "'d resp \<Rightarrow> ('a, 'k, 'd) machine \<Rightarrow>
    exn + ('a, 'k, 'd) machine \<times> ('a, 'k, 'd) event list" where
  "adjust_rate resp m =
     (case new_rps resp of
        None \<Rightarrow> Inr (m, [])
      | Some Falsy \<Rightarrow> Inr (m, [])
      | Some (Numeric v) \<Rightarrow> Inr (m\<lparr>rl := set_rate v (rl m)\<rparr>, [RateSet v])
      | Some (Malformed e) \<Rightarrow> Inl e)"

text \<open>Line 67: \<^verbatim>\<open>resp.get('status', 200)\<close>.\<close>

definition status_or_200 :: "'d resp \<Rightarrow> int" where
  "status_or_200 resp = (case status resp of None \<Rightarrow> 200 | Some s \<Rightarrow> s)"

definition retryable_statuses :: "int list" where
  "retryable_statuses = [429, 500, 502, 503, 504]"

text \<open>
  Lines 64 to 74, what the \<^verbatim>\<open>try\<close> block does with the dictionary \<^verbatim>\<open>fn\<close>
  returned: the value returned (\<open>Inr\<close>) or the exception raised (\<open>Inl\<close>). Past line
  69 the status is present (an absent one reads as 200), so \<^verbatim>\<open>resp['status']\<close> is
  the value line 67 read.
\<close>

definition on_response :: "'a \<Rightarrow> 'k \<Rightarrow> 'd resp \<Rightarrow> ('a, 'k, 'd) machine \<Rightarrow>
    (exn + 'd) \<times> ('a, 'k, 'd) machine \<times> ('a, 'k, 'd) event list" where
  "on_response a k resp m =
     (case adjust_rate resp m of
        Inl e \<Rightarrow> (Inl e, m, [])
      | Inr (m1, ev1) \<Rightarrow>
          if status_or_200 resp = 200
          then (case data resp of
                  None \<Rightarrow> (Inl key_error_data, m1\<lparr>cb := success (cb m1)\<rparr>, ev1 @ [Success])
                | Some d \<Rightarrow> (Inr d, m1\<lparr>cb := success (cb m1)\<rparr>, ev1 @ [Success]))
          else if status_or_200 resp \<in> set retryable_statuses
          then (Inl retryable_error, m1, ev1)
          else (let e = \<lparr>args = a, kw = k, reason = ''status-'' @ str_int (status_or_200 resp)\<rparr>
                in (Inl no_active_exception, dl_append e m1, ev1 @ [DeadLetter e])))"

text \<open>Lines 60 to 74: the \<^verbatim>\<open>try\<close> block.\<close>

definition try_block :: "'a \<Rightarrow> 'k \<Rightarrow> ('a, 'k, 'd) machine \<Rightarrow>
    ((exn + 'd) \<times> ('a, 'k, 'd) machine \<times> ('a, 'k, 'd) event list) option" where
  "try_block a k m =
     (case time_time m of
        None \<Rightarrow> None
      | Some (now, m1) \<Rightarrow>
          (case before now (cb m1) of
             Inl e \<Rightarrow> Some (Inl e, m1, [])
           | Inr _ \<Rightarrow>
               (case acquire 1 m1 of
                  None \<Rightarrow> None
                | Some (m2, ev2) \<Rightarrow>
                    (case call_fn m2 of
                       None \<Rightarrow> None
                     | Some (Raises e, m3) \<Rightarrow> Some (Inl e, m3, ev2 @ [Call (Raises e)])
                     | Some (Returns resp, m3) \<Rightarrow>
                         (case on_response a k resp m3 of
                            (r, m4, ev4) \<Rightarrow> Some (r, m4, ev2 @ Call (Returns resp) # ev4))))))"

record config =
  max_attempts :: int
  base_backoff :: real

text \<open>Line 81: the length of the sleep after attempt \<open>k\<close>, for the random draw \<open>r\<close>.\<close>

definition backoff :: "real \<Rightarrow> int \<Rightarrow> real \<Rightarrow> real" where
  "backoff base k r = base * 2 ^ nat (k - 1) * (0.9 + 0.2 * r)"

text \<open>
  \<^verbatim>\<open>time.sleep\<close> raises this error on a negative length. The draws of
  \<^verbatim>\<open>random.random()\<close> lie in \<open>[0, 1)\<close>, so the sleep of line 30 is never negative;
  the sleep of line 81 is when \<^verbatim>\<open>base_backoff\<close> is.
\<close>

definition sleep_error :: exn where
  "sleep_error = Exn ''ValueError'' ''sleep length must be non-negative''"

text \<open>
  Lines 75 to 81: the handler, at attempt \<open>k\<close>, of the exception \<open>e\<close>. It raises
  (\<open>Some\<close>: the exception \<open>e\<close> again on line 79, or the error of the sleep on line
  81, which leaves the handler as any exception does), or sleeps and lets the loop go
  on (\<open>None\<close>).
\<close>

definition handler :: "config \<Rightarrow> 'a \<Rightarrow> 'k \<Rightarrow> int \<Rightarrow> exn \<Rightarrow> ('a, 'k, 'd) machine \<Rightarrow>
    (exn option \<times> ('a, 'k, 'd) machine \<times> ('a, 'k, 'd) event list) option" where
  "handler c a kws k e m =
     (case cb_failure m of
        None \<Rightarrow> None
      | Some m1 \<Rightarrow>
          if \<not> contains ''retryable'' (msg e) \<or> k = max_attempts c
          then (let d = \<lparr>args = a, kw = kws, reason = msg e\<rparr>
                in Some (Some e, dl_append d m1, [Failure, DeadLetter d]))
          else (case random_random m1 of
                  None \<Rightarrow> None
                | Some (r, m2) \<Rightarrow>
                    if backoff (base_backoff c) k r < 0
                    then Some (Some sleep_error, m2, [Failure])
                    else Some (None, m2, [Failure, Backoff (backoff (base_backoff c) k r)])))"

text \<open>
  One turn of the \<^verbatim>\<open>for\<close> loop, lines 59 to 81: it returns a value, raises, or
  goes on to the next attempt.
\<close>

datatype 'd step = Return 'd | Raise exn | Next

definition attempt :: "config \<Rightarrow> 'a \<Rightarrow> 'k \<Rightarrow> int \<Rightarrow> ('a, 'k, 'd) machine \<Rightarrow>
    ('d step \<times> ('a, 'k, 'd) machine \<times> ('a, 'k, 'd) event list) option" where
  "attempt c a kws k m =
     (case try_block a kws m of
        None \<Rightarrow> None
      | Some (Inr d, m1, ev1) \<Rightarrow> Some (Return d, m1, ev1)
      | Some (Inl e, m1, ev1) \<Rightarrow>
          (case handler c a kws k e m1 of
             None \<Rightarrow> None
           | Some (Some e', m2, ev2) \<Rightarrow> Some (Raise e', m2, ev1 @ ev2)
           | Some (None, m2, ev2) \<Rightarrow> Some (Next, m2, ev1 @ ev2)))"

datatype 'd result = Returned 'd | ReturnedNone | Raised exn

text \<open>
  The \<^verbatim>\<open>for\<close> loop over the attempt numbers still to run. When the numbers run out
  the function ends without a \<^verbatim>\<open>return\<close>, which in Python returns \<^verbatim>\<open>None\<close>.
\<close>

fun attempts :: "config \<Rightarrow> 'a \<Rightarrow> 'k \<Rightarrow> int list \<Rightarrow> ('a, 'k, 'd) machine \<Rightarrow>
    ('d result \<times> ('a, 'k, 'd) machine \<times> ('a, 'k, 'd) event list) option" where
  "attempts c a kws [] m = Some (ReturnedNone, m, [])"
| "attempts c a kws (k # ks) m =
     (case attempt c a kws k m of
        None \<Rightarrow> None
      | Some (Return d, m1, ev1) \<Rightarrow> Some (Returned d, m1, ev1)
      | Some (Raise e, m1, ev1) \<Rightarrow> Some (Raised e, m1, ev1)
      | Some (Next, m1, ev1) \<Rightarrow>
          (case attempts c a kws ks m1 of
             None \<Rightarrow> None
           | Some (r, m2, ev2) \<Rightarrow> Some (r, m2, ev1 @ ev2)))"

text \<open>\<^verbatim>\<open>wrapper(*args, **kw)\<close>: the loop over \<^verbatim>\<open>range(1, max_attempts+1)\<close>.\<close>

definition wrapper :: "config \<Rightarrow> 'a \<Rightarrow> 'k \<Rightarrow> ('a, 'k, 'd) machine \<Rightarrow>
    ('d result \<times> ('a, 'k, 'd) machine \<times> ('a, 'k, 'd) event list) option" where
  "wrapper c a kws m = attempts c a kws [1..max_attempts c] m"

text \<open>What a list of events holds of one kind, in order.\<close>

definition dead_letters :: "('a, 'k, 'd) event list \<Rightarrow> ('a, 'k) entry list" where
  "dead_letters ev = concat (map (\<lambda>x. case x of DeadLetter e \<Rightarrow> [e] | _ \<Rightarrow> []) ev)"

definition backoffs :: "('a, 'k, 'd) event list \<Rightarrow> real list" where
  "backoffs ev = concat (map (\<lambda>x. case x of Backoff d \<Rightarrow> [d] | _ \<Rightarrow> []) ev)"

definition calls :: "('a, 'k, 'd) event list \<Rightarrow> 'd outcome list" where
  "calls ev = concat (map (\<lambda>x. case x of Call out \<Rightarrow> [out] | _ \<Rightarrow> []) ev)"

text \<open>
  An outcome of \<^verbatim>\<open>fn\<close> that line 70 takes as retryable: a dictionary whose status
  is one of the five, and whose rate header, if any, does not make \<^verbatim>\<open>float\<close> raise
  on line 66.
\<close>

fun retryable_outcome :: "'d outcome \<Rightarrow> bool" where
  "retryable_outcome (Raises e) = False"
| "retryable_outcome (Returns resp) =
     (status_or_200 resp \<in> set retryable_statuses \<and>
      (case new_rps resp of Some (Malformed e) \<Rightarrow> False | _ \<Rightarrow> True))"

text \<open>The events of \<^verbatim>\<open>acquire\<close> are sleeps of line 30 and nothing else.\<close>

fun is_poll :: "('a, 'k, 'd) event \<Rightarrow> bool" where
  "is_poll (PollSleep t) = True"
| "is_poll x = False"

definition polls_only :: "('a, 'k, 'd) event list \<Rightarrow> bool" where
  "polls_only ev = list_all is_poll ev"

text \<open>
  For each call of \<^verbatim>\<open>failure()\<close> in a list of events, in order: the length of the
  sleep of line 81 that follows it at once, or \<open>None\<close> when what follows is not that
  sleep.
\<close>

fun after_failure :: "('a, 'k, 'd) event list \<Rightarrow> real option list" where
  "after_failure [] = []"
| "after_failure (Failure # Backoff d # ev) = Some d # after_failure ev"
| "after_failure (Failure # ev) = None # after_failure ev"
| "after_failure (x # ev) = after_failure ev"

text \<open>
  A machine on which \<open>j\<close> attempts in a row run without waiting and end in a
  retryable status: the clock has two readings for each (lines 39 and 22), in order and
  not before the limiter's timestamp nor the breaker's \<open>open_until\<close>; the limiter holds
  \<open>j\<close> tokens; the breaker is more than \<open>j\<close> failures from its threshold; the next
  \<open>j\<close> outcomes of \<^verbatim>\<open>fn\<close> are retryable; there is a random draw for each sleep
  between them, and no sleep is negative.
\<close>

definition unhindered :: "config \<Rightarrow> nat \<Rightarrow> ('a, 'k, 'd) machine \<Rightarrow> bool" where
  "unhindered c j m =
     (0 \<le> base_backoff c
      \<and> 2 * j \<le> length (clock m)
      \<and> list_all (\<lambda>t. ts (rl m) \<le> t \<and> open_until (cb m) \<le> t) (clock m)
      \<and> sorted (clock m)
      \<and> j \<le> Suc (length (rands m))
      \<and> list_all (\<lambda>r. 0 \<le> r) (rands m)
      \<and> fail_count (cb m) + int j < fail_threshold (cb m)
      \<and> 0 \<le> rate (rl m)
      \<and> tokens (rl m) \<le> of_int (capacity (rl m))
      \<and> of_nat j \<le> tokens (rl m)
      \<and> j \<le> length (outs m)
      \<and> list_all retryable_outcome (take j (outs m)))"

text \<open>
  The objects of the module's demo (lines 86 and 87, created at clock reading 0), the
  default arguments of \<^verbatim>\<open>resilient\<close> (line 53), and a dictionary with all three
  keys.
\<close>

definition demo_machine :: "real list \<Rightarrow> real list \<Rightarrow> 'd outcome list \<Rightarrow> ('a, 'k, 'd) machine" where
  "demo_machine cl rs os =
     \<lparr>rl = limiter_init 100 200 0, cb = breaker_init 5 15, dead_letter = [],
      clock = cl, rands = rs, outs = os\<rparr>"

definition default_config :: config where
  "default_config = \<lparr>max_attempts = 6, base_backoff = 0.3\<rparr>"

definition reply :: "int \<Rightarrow> (string \<rightharpoonup> hval) \<Rightarrow> 'd \<Rightarrow> 'd outcome" where
  "reply st h d = Returns \<lparr>status = Some st, headers = Some h, data = Some d\<rparr>"

text \<open>The unfolding rules that evaluate the model on a concrete input.\<close>

lemmas model_defs =
  wrapper_def attempt_def try_block_def handler_def acquire.simps time_time_def
  random_random_def acquire_poll_def refill_def limiter_init_def breaker_init_def before_def
  call_fn_def on_response_def adjust_rate_def new_rps_def status_or_200_def
  retryable_statuses_def dl_append_def deque_append_def dead_letter_maxlen_def cb_failure_def
  failure_def bump_def trip_def success_def set_rate_def no_active_exception_def
  retryable_error_def circuit_open_def key_error_data_def sleep_error_def RuntimeError_def
  str_int_def
  str_nat.simps backoff_def upto.simps Let_def dead_letters_def backoffs_def calls_def
  demo_machine_def default_config_def reply_def

section \<open>The token bucket stays in range\<close>

lemma refill_fields [simp]:
  "rate (refill now s) = rate s" "capacity (refill now s) = capacity s" "ts (refill now s) = now"
  by (simp_all add: refill_def)

lemma refill_in_range:
  assumes "tokens_in_range s" "0 \<le> rate s" "ts s \<le> now"
  shows "tokens_in_range (refill now s)"
proof -
  have "0 \<le> (now - ts s) * rate s" using assms by simp
  then show ?thesis using assms(1) by (simp add: tokens_in_range_def refill_def)
qed

lemma acquire_poll_fields [simp]:
  "rate (snd (acquire_poll n now s)) = rate s"
  "capacity (snd (acquire_poll n now s)) = capacity s"
  "ts (snd (acquire_poll n now s)) = now"
  by (simp_all add: acquire_poll_def Let_def)

lemma acquire_poll_in_range:
  assumes "tokens_in_range s" "0 \<le> rate s" "ts s \<le> now" "1 \<le> n"
  shows "tokens_in_range (snd (acquire_poll n now s))"
proof -
  have r: "tokens_in_range (refill now s)" using assms by (simp add: refill_in_range)
  show ?thesis
  proof (cases "of_int n \<le> tokens (refill now s)")
    case True
    moreover have "(0::real) \<le> of_int n" using assms(4) by simp
    ultimately show ?thesis using r by (simp add: acquire_poll_def Let_def tokens_in_range_def)
  next
    case False
    then show ?thesis using r by (simp add: acquire_poll_def Let_def)
  qed
qed

lemma set_rate_fields [simp]:
  "tokens (set_rate r s) = tokens s" "capacity (set_rate r s) = capacity s"
  "ts (set_rate r s) = ts s" "0 \<le> rate (set_rate r s)"
  by (simp_all add: set_rate_def)

lemma set_rate_in_range: "tokens_in_range s \<Longrightarrow> tokens_in_range (set_rate r s)"
  by (simp add: tokens_in_range_def)

text \<open>
  C5: from a limiter whose tokens lie between 0 and its capacity and whose rate is not
  negative, every history of \<^verbatim>\<open>set_rate\<close> calls and turns of \<^verbatim>\<open>acquire(n)\<close> with
  \<open>n \<ge> 1\<close>, at clock readings that do not decrease, keeps the tokens between 0 and the
  capacity at every point: after each rate change, each refill and each deduction.
\<close>

theorem tokens_stay_in_range:
  assumes "tokens_in_range s" "0 \<le> rate s" "admissible (ts s) ops"
  shows "\<forall>s' \<in> set (observe ops s). tokens_in_range s'"
  using assms
proof (induction ops arbitrary: s)
  case Nil
  then show ?case by simp
next
  case (Cons x ops)
  show ?case
  proof (cases x)
    case (SetRate r)
    have "\<forall>s' \<in> set (observe ops (set_rate r s)). tokens_in_range s'"
      using Cons.prems SetRate by (intro Cons.IH) (simp_all add: set_rate_in_range)
    then show ?thesis using Cons.prems(1) SetRate by (simp add: set_rate_in_range)
  next
    case (Poll n now)
    have adm: "1 \<le> n" "ts s \<le> now" "admissible now ops"
      using Cons.prems(3) Poll by simp_all
    have a: "tokens_in_range (refill now s)"
      using Cons.prems adm by (simp add: refill_in_range)
    have b: "tokens_in_range (snd (acquire_poll n now s))"
      using Cons.prems adm by (simp add: acquire_poll_in_range)
    have "\<forall>s' \<in> set (observe ops (snd (acquire_poll n now s))). tokens_in_range s'"
      using b Cons.prems(2) adm(3) by (intro Cons.IH) simp_all
    then show ?thesis using a b Poll by simp
  qed
qed

theorem tokens_stay_in_range_witness:
  "tokens_in_range (limiter_init 100 2 0) \<and> 0 \<le> rate (limiter_init 100 2 0)
   \<and> admissible (ts (limiter_init 100 2 0)) [Poll 1 0, Poll 2 0, SetRate 10, Poll 2 (1/10), Poll 2 (1/10)]
   \<and> map tokens (observe [Poll 1 0, Poll 2 0, SetRate 10, Poll 2 (1/10), Poll 2 (1/10)] (limiter_init 100 2 0))
       = [2, 1, 1, 1, 1, 2, 0, 0, 0]
   \<and> list_all tokens_in_range
       (observe [Poll 1 0, Poll 2 0, SetRate 10, Poll 2 (1/10), Poll 2 (1/10)] (limiter_init 100 2 0))"
  using tokens_stay_in_range [of "limiter_init 100 2 0"
      "[Poll 1 0, Poll 2 0, SetRate 10, Poll 2 (1/10), Poll 2 (1/10)]"]
  by (simp add: list_all_iff tokens_in_range_def limiter_init_def acquire_poll_def refill_def
      set_rate_def Let_def)

section \<open>The deque and the breaker\<close>

lemma deque_append_drop:
  "length xs \<le> m \<Longrightarrow> deque_append m x xs = drop (Suc (length xs) - m) (xs @ [x])"
  by (cases xs) (auto simp: deque_append_def Let_def Suc_diff_le drop_Suc)

lemma deque_append_length: "length xs \<le> m \<Longrightarrow> length (deque_append m x xs) \<le> m"
  by (auto simp: deque_append_def Let_def)

lemma record_all_drop:
  "length xs \<le> m \<Longrightarrow> record_all m es xs = drop (length (xs @ es) - m) (xs @ es)"
proof (induction es arbitrary: xs)
  case Nil
  then show ?case by simp
next
  case (Cons e es)
  let ?ys = "deque_append m e xs"
  have len: "length ?ys \<le> m" using Cons.prems by (rule deque_append_length)
  have ys: "?ys = drop (Suc (length xs) - m) (xs @ [e])"
    using Cons.prems by (rule deque_append_drop)
  have "record_all m (e # es) xs = drop (length (?ys @ es) - m) (?ys @ es)"
    using Cons.IH [OF len] by simp
  also have "\<dots> = drop (length (xs @ e # es) - m) (xs @ e # es)"
  proof (cases "length xs < m")
    case True
    then show ?thesis using ys by simp
  next
    case False
    then have eq: "length xs = m" using Cons.prems by simp
    have "?ys = drop 1 (xs @ [e])" using ys eq by simp
    then have cat: "?ys @ es = drop 1 (xs @ e # es)" by (cases xs) simp_all
    have l1: "length (?ys @ es) - m = length es"
      using \<open>?ys = drop 1 (xs @ [e])\<close> eq by simp
    have l2: "length (xs @ e # es) - m = length es + 1" using eq by simp
    have "drop (length (?ys @ es) - m) (?ys @ es) = drop (length es) (drop 1 (xs @ e # es))"
      by (subst l1, subst cat) (rule refl)
    also have "\<dots> = drop (length es + 1) (xs @ e # es)" by (simp only: drop_drop)
    finally show ?thesis by (simp only: l2)
  qed
  finally show ?case .
qed

text \<open>
  C6: a deque of positive capacity \<open>m\<close> holding at most \<open>m\<close> entries never holds more
  than \<open>m\<close> after any sequence of appends; it then holds the last \<open>m\<close> of all entries
  in insertion order; an append at capacity drops the oldest entry; the newest entry is
  always the last one kept; after \<open>m + 1\<close> appends to the empty deque all but the first
  entry remain.
\<close>

theorem dead_letter_bounded_fifo:
  assumes "0 < m" "length xs \<le> m"
  shows "length (record_all m es xs) \<le> m
       \<and> record_all m es xs = drop (length (xs @ es) - m) (xs @ es)
       \<and> (length xs = m \<longrightarrow> deque_append m e xs = tl xs @ [e])
       \<and> (es \<noteq> [] \<longrightarrow> last (record_all m es xs) = last es)
       \<and> (xs = [] \<and> length es = m + 1 \<longrightarrow> record_all m es xs = tl es)"
proof -
  have d: "record_all m es xs = drop (length (xs @ es) - m) (xs @ es)"
    using assms(2) by (rule record_all_drop)
  have "length (record_all m es xs) \<le> m" unfolding d by simp
  moreover have "length xs = m \<longrightarrow> deque_append m e xs = tl xs @ [e]"
    using assms(1) by (cases xs) (auto simp: deque_append_def Let_def)
  moreover have "es \<noteq> [] \<longrightarrow> last (record_all m es xs) = last es"
  proof
    assume ne: "es \<noteq> []"
    have "length (xs @ es) - m < length (xs @ es)" using assms(1) ne by (cases es) simp_all
    then have "last (drop (length (xs @ es) - m) (xs @ es)) = last (xs @ es)"
      by (intro last_drop)
    then show "last (record_all m es xs) = last es" using ne d by simp
  qed
  moreover have "xs = [] \<and> length es = m + 1 \<longrightarrow> record_all m es xs = tl es"
    unfolding d by (auto simp: drop_Suc)
  ultimately show ?thesis using d by blast
qed

theorem dead_letter_bounded_fifo_witness:
  "(0::nat) < 3 \<and> length ([]::nat list) \<le> 3
   \<and> record_all 3 [10, 20, 30, 40::nat] [] = [20, 30, 40]
   \<and> deque_append 3 (40::nat) [10, 20, 30] = [20, 30, 40]
   \<and> length (record_all 3 [10, 20, 30, 40::nat] []) \<le> 3"
  using dead_letter_bounded_fifo [of 3 "[]::nat list" "[10, 20, 30, 40]" 40]
    dead_letter_bounded_fifo [of 3 "[10, 20, 30::nat]" "[]" 40]
  by simp

lemma failures_below:
  "fail_count b + int (length nows) < fail_threshold b \<Longrightarrow>
   failures nows b = b\<lparr>fail_count := fail_count b + int (length nows)\<rparr>"
proof (induction nows arbitrary: b)
  case Nil
  then show ?case by simp
next
  case (Cons t nows)
  have f: "failure t b = b\<lparr>fail_count := fail_count b + 1\<rparr>"
    using Cons.prems by (simp add: failure_def bump_def Let_def)
  have "failures nows (failure t b) =
        (failure t b)\<lparr>fail_count := fail_count (failure t b) + int (length nows)\<rparr>"
    using Cons.prems by (intro Cons.IH) (simp_all add: f)
  then show ?case by (simp add: f add.assoc)
qed

lemma failures_snoc: "failures (nows @ [t]) b = failure t (failures nows b)"
  by (induction nows arbitrary: b) simp_all

text \<open>
  C7 ends: after the breaker closes again a full threshold of new failures is needed to
  open it. The count does not wait for the breaker to close. With a threshold of 3:
  three failures open the breaker until 22; two calls of \<^verbatim>\<open>failure()\<close> at 8 and 9,
  while it is open, leave the count at 2; at 30 the breaker is closed, \<^verbatim>\<open>before()\<close>
  passes, and one failure opens it again, until 45.
\<close>

theorem full_threshold_after_closing_counterexample:
  "failures [1, 2, 7] (breaker_init 3 15) = (breaker_init 3 15)\<lparr>open_until := 22\<rparr>
   \<and> failures [8, 9] ((breaker_init 3 15)\<lparr>open_until := 22\<rparr>) =
       (breaker_init 3 15)\<lparr>open_until := 22, fail_count := 2\<rparr>
   \<and> before 30 ((breaker_init 3 15)\<lparr>open_until := 22, fail_count := 2\<rparr>) =
       Inr ((breaker_init 3 15)\<lparr>open_until := 22, fail_count := 2\<rparr>)
   \<and> failure 30 ((breaker_init 3 15)\<lparr>open_until := 22, fail_count := 2\<rparr>) =
       (breaker_init 3 15)\<lparr>open_until := 45\<rparr>
   \<and> (1::int) < fail_threshold (breaker_init 3 15)"
  by (simp add: breaker_init_def failure_def bump_def trip_def before_def Let_def)

text \<open>
  The wrapper makes such calls: each call rejected by the open breaker counts a failure
  (lines 60, 75 and 76). Two rejected calls at 8 and 9 and one call answered 500 at 30,
  when the breaker is closed, open it again.
\<close>

lemma rejections_count_towards_threshold:
  "wrapper default_config () ()
     ((demo_machine [8] [] [])
        \<lparr>cb := \<lparr>fail_threshold = 3, reset_after = 15, fail_count = 0, open_until = 22\<rparr>\<rparr>) =
     Some (Raised circuit_open,
           (demo_machine [] [] [])
             \<lparr>cb := \<lparr>fail_threshold = 3, reset_after = 15, fail_count = 1, open_until = 22\<rparr>,
              dead_letter := [\<lparr>args = (), kw = (), reason = ''circuit-open''\<rparr>]\<rparr>,
           [Failure, DeadLetter \<lparr>args = (), kw = (), reason = ''circuit-open''\<rparr>])
   \<and> wrapper default_config () ()
     ((demo_machine [9] [] [])
        \<lparr>cb := \<lparr>fail_threshold = 3, reset_after = 15, fail_count = 1, open_until = 22\<rparr>\<rparr>) =
     Some (Raised circuit_open,
           (demo_machine [] [] [])
             \<lparr>cb := \<lparr>fail_threshold = 3, reset_after = 15, fail_count = 2, open_until = 22\<rparr>,
              dead_letter := [\<lparr>args = (), kw = (), reason = ''circuit-open''\<rparr>]\<rparr>,
           [Failure, DeadLetter \<lparr>args = (), kw = (), reason = ''circuit-open''\<rparr>])
   \<and> wrapper \<lparr>max_attempts = 1, base_backoff = 0.3\<rparr> () ()
     ((demo_machine [30, 30, 30] [] [reply 500 Map.empty ()])
        \<lparr>cb := \<lparr>fail_threshold = 3, reset_after = 15, fail_count = 2, open_until = 22\<rparr>\<rparr>) =
     Some (Raised retryable_error,
           \<lparr>rl = \<lparr>rate = 100, capacity = 200, tokens = 199, ts = 30\<rparr>,
            cb = \<lparr>fail_threshold = 3, reset_after = 15, fail_count = 0, open_until = 45\<rparr>,
            dead_letter = [\<lparr>args = (), kw = (), reason = ''retryable''\<rparr>],
            clock = [], rands = [], outs = []\<rparr>,
           [Call (reply 500 Map.empty ()), Failure,
            DeadLetter \<lparr>args = (), kw = (), reason = ''retryable''\<rparr>])"
  by (simp add: model_defs)

text \<open>
  C7, as the code has it: \<^verbatim>\<open>failure()\<close> adds one to the count; when the count then
  reaches the threshold it sets \<open>open_until\<close> to the clock reading plus
  \<open>reset_after\<close> and the count to 0. From any count, the calls that keep the count
  below the threshold leave \<open>open_until\<close> as it was, and the call that completes the
  threshold sets it: from the count 0 that a trip leaves, a full threshold of calls,
  whether the breaker is open or closed when they are made.
\<close>

theorem failure_trips_at_threshold:
  "failure now b =
     (if fail_threshold b \<le> fail_count b + 1
      then b\<lparr>open_until := now + reset_after b, fail_count := 0\<rparr>
      else b\<lparr>fail_count := fail_count b + 1\<rparr>)
   \<and> (fail_count b + int (length nows) < fail_threshold b \<longrightarrow>
        failures nows b = b\<lparr>fail_count := fail_count b + int (length nows)\<rparr>)
   \<and> (fail_count b + int (length nows) + 1 = fail_threshold b \<longrightarrow>
        failures (nows @ [t]) b = b\<lparr>open_until := t + reset_after b, fail_count := 0\<rparr>)"
proof -
  have one: "\<And>u c. failure u c =
     (if fail_threshold c \<le> fail_count c + 1
      then c\<lparr>open_until := u + reset_after c, fail_count := 0\<rparr>
      else c\<lparr>fail_count := fail_count c + 1\<rparr>)"
    by (simp add: failure_def bump_def trip_def Let_def)
  have below: "failures nows b = b\<lparr>fail_count := fail_count b + int (length nows)\<rparr>"
    if "fail_count b + int (length nows) < fail_threshold b"
    using that by (rule failures_below)
  have at: "failures (nows @ [t]) b = b\<lparr>open_until := t + reset_after b, fail_count := 0\<rparr>"
    if eq: "fail_count b + int (length nows) + 1 = fail_threshold b"
  proof -
    have "failures nows b = b\<lparr>fail_count := fail_count b + int (length nows)\<rparr>"
      using eq by (intro below) simp
    then show ?thesis using eq by (simp add: failures_snoc one)
  qed
  show ?thesis using one [of now b] below at by blast
qed

theorem failure_trips_at_threshold_witness:
  "fail_count (breaker_init 3 15) + int (length [1, 2::real]) < fail_threshold (breaker_init 3 15)
   \<and> fail_count (breaker_init 3 15) + int (length [1, 2::real]) + 1 = fail_threshold (breaker_init 3 15)
   \<and> failures [1, 2] (breaker_init 3 15) = (breaker_init 3 15)\<lparr>fail_count := 2\<rparr>
   \<and> failures [1, 2, 7] (breaker_init 3 15) = (breaker_init 3 15)\<lparr>open_until := 22\<rparr>
   \<and> failures [8, 9] (failures [1, 2, 7] (breaker_init 3 15)) = (breaker_init 3 15)\<lparr>open_until := 22, fail_count := 2\<rparr>
   \<and> failures [8, 9, 30] (failures [1, 2, 7] (breaker_init 3 15)) = (breaker_init 3 15)\<lparr>open_until := 45\<rparr>
   \<and> failures [30] ((breaker_init 3 15)\<lparr>open_until := 22, fail_count := 2\<rparr>) = (breaker_init 3 15)\<lparr>open_until := 45\<rparr>"
  using failure_trips_at_threshold [of 0 "breaker_init 3 15" "[1, 2]" 7]
    failure_trips_at_threshold [of 0 "(breaker_init 3 15)\<lparr>open_until := 22\<rparr>" "[8, 9]" 30]
    failure_trips_at_threshold [of 0 "(breaker_init 3 15)\<lparr>open_until := 22, fail_count := 2\<rparr>" "[]" 30]
  by (simp add: breaker_init_def failure_def bump_def trip_def Let_def)

text \<open>
  C8: \<^verbatim>\<open>before()\<close> raises the circuit-open error exactly when the clock reading is
  strictly below \<open>open_until\<close>; otherwise it raises nothing and leaves the breaker as it
  was; the failure count plays no part.
\<close>

theorem before_fails_iff_open:
  "(isl (before now b) \<longleftrightarrow> now < open_until b)
   \<and> (now < open_until b \<longrightarrow> before now b = Inl circuit_open)
   \<and> (\<not> now < open_until b \<longrightarrow> before now b = Inr b)
   \<and> before now (b\<lparr>fail_count := c\<rparr>) = map_sum id (\<lambda>b'. b'\<lparr>fail_count := c\<rparr>) (before now b)"
  by (simp add: before_def)

theorem before_fails_iff_open_witness:
  "(3::real) < open_until ((breaker_init 5 15)\<lparr>open_until := 18\<rparr>)
   \<and> before 3 ((breaker_init 5 15)\<lparr>open_until := 18\<rparr>) = Inl (Exn ''RuntimeError'' ''circuit-open'')
   \<and> \<not> (18::real) < open_until ((breaker_init 5 15)\<lparr>open_until := 18\<rparr>)
   \<and> before 18 ((breaker_init 5 15)\<lparr>open_until := 18, fail_count := 4\<rparr>)
       = Inr ((breaker_init 5 15)\<lparr>open_until := 18, fail_count := 4\<rparr>)"
  using before_fails_iff_open [of 3 "(breaker_init 5 15)\<lparr>open_until := 18\<rparr>" 0]
    before_fails_iff_open [of 18 "(breaker_init 5 15)\<lparr>open_until := 18, fail_count := 4\<rparr>" 4]
  by (simp add: breaker_init_def circuit_open_def RuntimeError_def)

section \<open>The parts of an attempt\<close>

subsection \<open>Events of one kind\<close>

lemma calls_simps [simp]:
  "calls [] = []" "calls (Call out # ev) = out # calls ev" "calls (RateSet v # ev) = calls ev"
  "calls (Success # ev) = calls ev" "calls (Failure # ev) = calls ev"
  "calls (DeadLetter d # ev) = calls ev" "calls (PollSleep t # ev) = calls ev"
  "calls (Backoff t # ev) = calls ev" "calls (ev @ ev') = calls ev @ calls ev'"
  by (simp_all add: calls_def)

lemma backoffs_simps [simp]:
  "backoffs [] = []" "backoffs (Call out # ev) = backoffs ev" "backoffs (RateSet v # ev) = backoffs ev"
  "backoffs (Success # ev) = backoffs ev" "backoffs (Failure # ev) = backoffs ev"
  "backoffs (DeadLetter d # ev) = backoffs ev" "backoffs (PollSleep t # ev) = backoffs ev"
  "backoffs (Backoff t # ev) = t # backoffs ev" "backoffs (ev @ ev') = backoffs ev @ backoffs ev'"
  by (simp_all add: backoffs_def)

lemma dead_letters_simps [simp]:
  "dead_letters [] = []" "dead_letters (Call out # ev) = dead_letters ev"
  "dead_letters (RateSet v # ev) = dead_letters ev"
  "dead_letters (Success # ev) = dead_letters ev" "dead_letters (Failure # ev) = dead_letters ev"
  "dead_letters (DeadLetter d # ev) = d # dead_letters ev"
  "dead_letters (PollSleep t # ev) = dead_letters ev"
  "dead_letters (Backoff t # ev) = dead_letters ev"
  "dead_letters (ev @ ev') = dead_letters ev @ dead_letters ev'"
  by (simp_all add: dead_letters_def)

subsection \<open>What each part of an attempt can do\<close>

lemma polls_only_simps [simp]:
  "polls_only []" "polls_only (PollSleep t # ev) = polls_only ev"
  by (simp_all add: polls_only_def)

lemma polls_only_projections:
  "polls_only ev \<Longrightarrow> calls ev = [] \<and> backoffs ev = [] \<and> dead_letters ev = []"
proof (induction ev)
  case Nil
  then show ?case by simp
next
  case (Cons x ev)
  then show ?case by (cases x) (simp_all add: polls_only_def)
qed

lemma acquire_frame:
  "acquire n m = Some (m', ev) \<Longrightarrow>
     cb m' = cb m \<and> dead_letter m' = dead_letter m \<and> outs m' = outs m
     \<and> set (rands m') \<subseteq> set (rands m) \<and> polls_only ev
     \<and> rate (rl m') = rate (rl m)"
proof (induction n m arbitrary: m' ev rule: acquire.induct)
  case (1 n m)
  from "1.prems" obtain now cl where cl: "clock m = now # cl"
    by (subst (asm) acquire.simps) (auto simp: time_time_def split: list.splits)
  let ?m1 = "m\<lparr>clock := cl\<rparr>"
  let ?p = "acquire_poll n now (rl m)"
  have tt: "time_time m = Some (now, ?m1)" using cl by (simp add: time_time_def)
  have pr: "rate (snd ?p) = rate (rl m)" by (simp add: acquire_poll_def refill_def Let_def)
  show ?case
  proof (cases "fst ?p")
    case True
    then have "m' = ?m1\<lparr>rl := snd ?p\<rparr>" "ev = []"
      using "1.prems" tt by (subst (asm) acquire.simps, simp)+
    then show ?thesis using pr by simp
  next
    case False
    let ?m1' = "?m1\<lparr>rl := snd ?p\<rparr>"
    from "1.prems" False tt obtain r rs where rs: "rands m = r # rs"
      by (subst (asm) acquire.simps) (auto simp: random_random_def split: list.splits)
    let ?m2 = "?m1'\<lparr>rands := rs\<rparr>"
    have rr: "random_random ?m1' = Some (r, ?m2)" using rs by (simp add: random_random_def)
    from "1.prems" False tt rr obtain ev3 where
      rec: "acquire n ?m2 = Some (m', ev3)" and ev: "ev = PollSleep (0.01 + r * 0.02) # ev3"
      by (subst (asm) acquire.simps) (auto split: option.splits)
    have "cb m' = cb ?m2 \<and> dead_letter m' = dead_letter ?m2 \<and> outs m' = outs ?m2
       \<and> set (rands m') \<subseteq> set (rands ?m2) \<and> polls_only ev3 \<and> rate (rl m') = rate (rl ?m2)"
      using False tt rr rec by (intro "1.IH"[of "(now, ?m1)" now ?m1 "(r, ?m2)" r ?m2]) simp_all
    then show ?thesis using ev rs pr by auto
  qed
qed


lemma cb_failure_frame:
  "cb_failure m = Some m1 \<Longrightarrow>
     rands m1 = rands m \<and> rl m1 = rl m \<and> dead_letter m1 = dead_letter m \<and> outs m1 = outs m"
  by (auto simp: cb_failure_def time_time_def Let_def split: if_splits list.splits)

lemma on_response_frame:
  "on_response a k resp m = (r, m', ev) \<Longrightarrow>
     rands m' = rands m \<and> clock m' = clock m \<and> outs m' = outs m
     \<and> calls ev = [] \<and> backoffs ev = []"
  by (auto simp: on_response_def adjust_rate_def dl_append_def Let_def
      split: sum.splits option.splits hval.splits if_splits)

lemma on_response_retryable:
  assumes "on_response a k resp m = (r, m', ev)" "retryable_outcome (Returns resp)"
  shows "r = Inl retryable_error \<and> dead_letters ev = [] \<and> cb m' = cb m
       \<and> dead_letter m' = dead_letter m"
proof -
  have ne: "status_or_200 resp \<noteq> 200" using assms(2) by (auto simp: retryable_statuses_def)
  show ?thesis using assms ne
    by (auto simp: on_response_def adjust_rate_def split: option.splits hval.splits)
qed

lemma try_block_cases [consumes 1, case_names Rejected Failed Answered]:
  assumes "try_block a k m = Some (r, m', ev)"
  obtains
    (Rejected) now cl where "clock m = now # cl" "now < open_until (cb m)"
      "r = Inl circuit_open" "m' = m\<lparr>clock := cl\<rparr>" "ev = []"
  | (Failed) now cl m2 ev2 e rest where "clock m = now # cl" "\<not> now < open_until (cb m)"
      "acquire 1 (m\<lparr>clock := cl\<rparr>) = Some (m2, ev2)" "outs m2 = Raises e # rest"
      "r = Inl e" "m' = m2\<lparr>outs := rest\<rparr>" "ev = ev2 @ [Call (Raises e)]"
  | (Answered) now cl m2 ev2 resp rest ev4 where "clock m = now # cl"
      "\<not> now < open_until (cb m)"
      "acquire 1 (m\<lparr>clock := cl\<rparr>) = Some (m2, ev2)" "outs m2 = Returns resp # rest"
      "on_response a k resp (m2\<lparr>outs := rest\<rparr>) = (r, m', ev4)"
      "ev = ev2 @ Call (Returns resp) # ev4"
proof -
  from assms obtain now cl where cl: "clock m = now # cl"
    by (auto simp: try_block_def time_time_def split: list.splits)
  let ?m1 = "m\<lparr>clock := cl\<rparr>"
  have tt: "time_time m = Some (now, ?m1)" using cl by (simp add: time_time_def)
  show thesis
  proof (cases "now < open_until (cb m)")
    case True
    then have "r = Inl circuit_open" "m' = ?m1" "ev = []"
      using assms tt by (simp_all add: try_block_def before_def)
    then show thesis using cl True by (intro Rejected)
  next
    case False
    then have bf: "before now (cb ?m1) = Inr (cb m)" by (simp add: before_def)
    from assms tt bf obtain m2 ev2 where acq: "acquire 1 ?m1 = Some (m2, ev2)"
      by (auto simp: try_block_def split: option.splits)
    from assms tt bf acq obtain out rest where os: "outs m2 = out # rest"
      by (auto simp: try_block_def call_fn_def split: list.splits)
    have cf: "call_fn m2 = Some (out, m2\<lparr>outs := rest\<rparr>)" using os by (simp add: call_fn_def)
    show thesis
    proof (cases out)
      case (Raises e)
      then have "r = Inl e" "m' = m2\<lparr>outs := rest\<rparr>" "ev = ev2 @ [Call (Raises e)]"
        using assms tt bf acq cf by (simp_all add: try_block_def)
      then show thesis using cl False acq os Raises by (intro Failed) simp_all
    next
      case (Returns resp)
      obtain r4 m4 ev4 where orr: "on_response a k resp (m2\<lparr>outs := rest\<rparr>) = (r4, m4, ev4)"
        by (cases "on_response a k resp (m2\<lparr>outs := rest\<rparr>)") auto
      then have "r = r4" "m' = m4" "ev = ev2 @ Call (Returns resp) # ev4"
        using assms tt bf acq cf Returns by (simp_all add: try_block_def)
      then show thesis using cl False acq os Returns orr by (intro Answered) simp_all
    qed
  qed
qed

lemma handler_cases [consumes 1, case_names Reraise Sleep NoSleep]:
  assumes "handler c a kws k e m = Some (x, m', ev)"
  obtains
    (Reraise) m1 where "cb_failure m = Some m1"
      "\<not> contains ''retryable'' (msg e) \<or> k = max_attempts c" "x = Some e"
      "m' = dl_append \<lparr>args = a, kw = kws, reason = msg e\<rparr> m1"
      "ev = [Failure, DeadLetter \<lparr>args = a, kw = kws, reason = msg e\<rparr>]"
  | (Sleep) m1 r rs where "cb_failure m = Some m1" "contains ''retryable'' (msg e)"
      "k \<noteq> max_attempts c" "rands m1 = r # rs" "\<not> backoff (base_backoff c) k r < 0"
      "x = None" "m' = m1\<lparr>rands := rs\<rparr>"
      "ev = [Failure, Backoff (backoff (base_backoff c) k r)]"
  | (NoSleep) m1 r rs where "cb_failure m = Some m1" "contains ''retryable'' (msg e)"
      "k \<noteq> max_attempts c" "rands m1 = r # rs" "backoff (base_backoff c) k r < 0"
      "x = Some sleep_error" "m' = m1\<lparr>rands := rs\<rparr>" "ev = [Failure]"
proof -
  from assms obtain m1 where f: "cb_failure m = Some m1"
    by (auto simp: handler_def split: option.splits)
  show thesis
  proof (cases "\<not> contains ''retryable'' (msg e) \<or> k = max_attempts c")
    case True
    then have "x = Some e" "m' = dl_append \<lparr>args = a, kw = kws, reason = msg e\<rparr> m1"
      "ev = [Failure, DeadLetter \<lparr>args = a, kw = kws, reason = msg e\<rparr>]"
      using assms f by (auto simp: handler_def Let_def)
    then show thesis using f True by (intro Reraise)
  next
    case False
    from assms f False obtain r rs where rs: "rands m1 = r # rs"
      by (auto simp: handler_def random_random_def split: list.splits)
    show thesis
    proof (cases "backoff (base_backoff c) k r < 0")
      case neg: True
      then have "x = Some sleep_error" "m' = m1\<lparr>rands := rs\<rparr>" "ev = [Failure]"
        using assms f False rs by (auto simp: handler_def random_random_def)
      then show thesis using f False rs neg by (intro NoSleep) simp_all
    next
      case pos: False
      then have "x = None" "m' = m1\<lparr>rands := rs\<rparr>"
        "ev = [Failure, Backoff (backoff (base_backoff c) k r)]"
        using assms f False rs by (auto simp: handler_def random_random_def)
      then show thesis using f False rs pos by (intro Sleep) simp_all
    qed
  qed
qed

lemma attempt_cases [consumes 1, case_names Done Handled]:
  assumes "attempt c a kws k m = Some (st, m', ev)"
  obtains
    (Done) d where "try_block a kws m = Some (Inr d, m', ev)" "st = Return d"
  | (Handled) e m1 ev1 x ev2 where "try_block a kws m = Some (Inl e, m1, ev1)"
      "handler c a kws k e m1 = Some (x, m', ev2)" "ev = ev1 @ ev2"
      "st = (case x of Some e' \<Rightarrow> Raise e' | None \<Rightarrow> Next)"
proof -
  from assms obtain r m1 ev1 where tb: "try_block a kws m = Some (r, m1, ev1)"
    by (auto simp: attempt_def split: option.splits)
  show thesis
  proof (cases r)
    case (Inr d)
    then show thesis using assms tb by (intro Done[of d]) (simp_all add: attempt_def)
  next
    case (Inl e)
    from assms tb Inl obtain x m2 ev2 where h: "handler c a kws k e m1 = Some (x, m2, ev2)"
      by (auto simp: attempt_def split: option.splits)
    then have "m' = m2" "ev = ev1 @ ev2" "st = (case x of Some e' \<Rightarrow> Raise e' | None \<Rightarrow> Next)"
      using assms tb Inl by (auto simp: attempt_def split: option.splits)
    then show thesis using tb Inl h by (intro Handled[of e m1 ev1 x ev2]) simp_all
  qed
qed

lemma try_block_facts:
  assumes "try_block a k m = Some (r, m', ev)"
  shows "backoffs ev = [] \<and> set (rands m') \<subseteq> set (rands m) \<and> length (calls ev) \<le> 1"
  using assms
proof (cases rule: try_block_cases)
  case (Rejected now cl)
  then show ?thesis by simp
next
  case (Failed now cl m2 ev2 e rest)
  then show ?thesis
    using acquire_frame[OF Failed(3)] polls_only_projections[of ev2] by simp
next
  case (Answered now cl m2 ev2 resp rest ev4)
  then show ?thesis
    using acquire_frame[OF Answered(3)] polls_only_projections[of ev2]
      on_response_frame[OF Answered(5)] by simp
qed

lemma try_block_retryable:
  assumes "try_block a k m = Some (r, m', ev)" "calls ev = [out]" "retryable_outcome out"
  shows "r = Inl retryable_error"
  using assms(1)
proof (cases rule: try_block_cases)
  case (Rejected now cl)
  then show ?thesis using assms(2) by simp
next
  case (Failed now cl m2 ev2 e rest)
  then have "out = Raises e"
    using assms(2) acquire_frame[OF Failed(3)] polls_only_projections[of ev2] by simp
  then show ?thesis using assms(3) by simp
next
  case (Answered now cl m2 ev2 resp rest ev4)
  then have "out = Returns resp"
    using assms(2) acquire_frame[OF Answered(3)] polls_only_projections[of ev2]
      on_response_frame[OF Answered(5)] by simp
  then show ?thesis using assms(3) on_response_retryable[OF Answered(5)] by simp
qed

lemma handler_facts:
  assumes "handler c a kws k e m = Some (x, m', ev)"
  shows "calls ev = [] \<and> set (rands m') \<subseteq> set (rands m) \<and> rl m' = rl m
       \<and> (x = None \<longrightarrow> k \<noteq> max_attempts c
             \<and> (\<exists>r \<in> set (rands m). backoffs ev = [backoff (base_backoff c) k r]))
       \<and> (x \<noteq> None \<longrightarrow> backoffs ev = [])"
  using assms
proof (cases rule: handler_cases)
  case (Reraise m1)
  then show ?thesis using cb_failure_frame[OF Reraise(1)] by (simp add: dl_append_def)
next
  case (Sleep m1 r rs)
  then show ?thesis using cb_failure_frame[OF Sleep(1)] by auto
next
  case (NoSleep m1 r rs)
  then show ?thesis using cb_failure_frame[OF NoSleep(1)] by auto
qed

lemma retryable_error_kept: "contains ''retryable'' (msg retryable_error)"
  by (simp add: retryable_error_def RuntimeError_def)

lemma attempt_facts:
  assumes "attempt c a kws k m = Some (st, m', ev)"
  shows "length (calls ev) \<le> 1 \<and> set (rands m') \<subseteq> set (rands m)
       \<and> (st = Next \<longrightarrow> k \<noteq> max_attempts c
             \<and> (\<exists>r \<in> set (rands m). backoffs ev = [backoff (base_backoff c) k r]))
       \<and> (st \<noteq> Next \<longrightarrow> backoffs ev = [])"
  using assms
proof (cases rule: attempt_cases)
  case (Done d)
  then show ?thesis using try_block_facts[OF Done(1)] by simp
next
  case (Handled e m1 ev1 x ev2)
  show ?thesis
    using try_block_facts[OF Handled(1)] handler_facts[OF Handled(2)] Handled(3,4)
    by (cases x) auto
qed

lemma attempt_retryable:
  assumes "attempt c a kws k m = Some (st, m', ev)" "calls ev = [out]" "retryable_outcome out"
  shows "if k = max_attempts c then st = Raise retryable_error
         else st = Next \<or> st = Raise sleep_error"
  using assms(1)
proof (cases rule: attempt_cases)
  case (Done d)
  then show ?thesis using try_block_retryable[OF Done(1) assms(2,3)] by simp
next
  case (Handled e m1 ev1 x ev2)
  have c1: "calls ev1 = [out]" using assms(2) Handled(3) handler_facts[OF Handled(2)] by simp
  have e: "e = retryable_error" using try_block_retryable[OF Handled(1) c1 assms(3)] by simp
  from Handled(2) show ?thesis
  proof (cases rule: handler_cases)
    case (Reraise m1)
    then show ?thesis using Handled(4) e retryable_error_kept by simp
  next
    case (Sleep m1 r rs)
    then show ?thesis using Handled(4) by simp
  next
    case (NoSleep m1 r rs)
    then show ?thesis using Handled(4) by simp
  qed
qed

lemma attempts_calls:
  "attempts c a kws ks m = Some (res, m', ev) \<Longrightarrow> length (calls ev) \<le> length ks"
proof (induction ks arbitrary: m res m' ev)
  case Nil
  then show ?case by simp
next
  case (Cons k ks)
  from Cons.prems obtain st m1 ev1 where at: "attempt c a kws k m = Some (st, m1, ev1)"
    by (auto split: option.splits)
  have c1: "length (calls ev1) \<le> 1" using attempt_facts[OF at] by simp
  show ?case
  proof (cases st)
    case Next
    from Cons.prems at Next obtain ev2 where
      rec: "attempts c a kws ks m1 = Some (res, m', ev2)" and ev: "ev = ev1 @ ev2"
      by (auto split: option.splits)
    show ?thesis using Cons.IH[OF rec] c1 ev by simp
  next
    case (Return d)
    then have "ev = ev1" using Cons.prems at by simp
    then show ?thesis using c1 by simp
  next
    case (Raise e)
    then have "ev = ev1" using Cons.prems at by simp
    then show ?thesis using c1 by simp
  qed
qed

lemma attempts_exhausted:
  assumes "attempts c a kws ks m = Some (res, m', ev)"
    "ks \<noteq> []" "last ks = max_attempts c" "max_attempts c \<notin> set (butlast ks)"
    "length (calls ev) = length ks" "list_all retryable_outcome (calls ev)"
  shows "res = Raised retryable_error"
  using assms
proof (induction ks arbitrary: m res m' ev)
  case Nil
  then show ?case by simp
next
  case (Cons k ks)
  from Cons.prems(1) obtain st m1 ev1 where at: "attempt c a kws k m = Some (st, m1, ev1)"
    by (auto split: option.splits)
  have c1: "length (calls ev1) \<le> 1" using attempt_facts[OF at] by simp
  show ?case
  proof (cases st)
    case Next
    from Cons.prems(1) at Next obtain ev2 where
      rec: "attempts c a kws ks m1 = Some (res, m', ev2)" and ev: "ev = ev1 @ ev2"
      by (auto split: option.splits)
    have c2: "length (calls ev2) \<le> length ks" using rec by (rule attempts_calls)
    have l1: "length (calls ev1) = 1" and l2: "length (calls ev2) = length ks"
      using Cons.prems(5) c1 c2 ev by simp_all
    obtain out where out: "calls ev1 = [out]" using l1 by (cases "calls ev1") simp_all
    have "retryable_outcome out" using Cons.prems(6) ev out by simp
    then have "k \<noteq> max_attempts c" using attempt_retryable[OF at out] Next by (auto split: if_splits)
    then have ne: "ks \<noteq> []" using Cons.prems(3) by auto
    show ?thesis
      using rec ne Cons.prems(3,4,6) l2 ev by (intro Cons.IH[of m1 res m' ev2]) simp_all
  next
    case (Return d)
    then have ev: "ev = ev1" and res: "res = Returned d" using Cons.prems(1) at by simp_all
    then have "ks = []" using Cons.prems(5) c1 by simp
    then have k: "k = max_attempts c" using Cons.prems(3) by simp
    obtain out where out: "calls ev1 = [out]"
      using Cons.prems(5) ev \<open>ks = []\<close> by (cases "calls ev1") simp_all
    have "retryable_outcome out" using Cons.prems(6) ev out by simp
    then show ?thesis using attempt_retryable[OF at out] Return k by simp
  next
    case (Raise e)
    then have ev: "ev = ev1" and res: "res = Raised e" using Cons.prems(1) at by simp_all
    then have "ks = []" using Cons.prems(5) c1 by simp
    then have k: "k = max_attempts c" using Cons.prems(3) by simp
    obtain out where out: "calls ev1 = [out]"
      using Cons.prems(5) ev \<open>ks = []\<close> by (cases "calls ev1") simp_all
    have "retryable_outcome out" using Cons.prems(6) ev out by simp
    then show ?thesis using attempt_retryable[OF at out] Raise k res by simp
  qed
qed

section \<open>The backoff schedule\<close>

lemma attempts_backoffs:
  assumes "attempts c a kws [k..n] m = Some (res, m', ev)" "n = max_attempts c"
    "\<forall>r \<in> set (rands m). 0 \<le> r \<and> r \<le> 1"
  shows "length (backoffs ev) \<le> nat (n - k)
       \<and> (\<forall>i < length (backoffs ev). \<exists>r. 0 \<le> r \<and> r \<le> 1
             \<and> backoffs ev ! i = backoff (base_backoff c) (k + int i) r)"
  using assms
proof (induction k n arbitrary: m res m' ev rule: upto.induct)
  case (1 k n)
  show ?case
  proof (cases "k \<le> n")
    case False
    then have "[k..n] = []" by simp
    then have "ev = []" using "1.prems"(1) by simp
    then show ?thesis by simp
  next
    case True
    then have up: "[k..n] = k # [k + 1..n]" by (simp add: upto_rec1)
    from "1.prems"(1) up obtain st m1 ev1 where at: "attempt c a kws k m = Some (st, m1, ev1)"
      by (auto split: option.splits)
    note af = attempt_facts[OF at]
    show ?thesis
    proof (cases st)
      case Next
      from "1.prems"(1) up at Next obtain ev2 where
        rec: "attempts c a kws [k + 1..n] m1 = Some (res, m', ev2)" and ev: "ev = ev1 @ ev2"
        by (auto split: option.splits)
      from af Next obtain r where r: "r \<in> set (rands m)"
        and b1: "backoffs ev1 = [backoff (base_backoff c) k r]" and kn: "k \<noteq> max_attempts c"
        by auto
      have r01: "0 \<le> r \<and> r \<le> 1" using r "1.prems"(3) by simp
      have rs: "\<forall>r \<in> set (rands m1). 0 \<le> r \<and> r \<le> 1" using af "1.prems"(3) by auto
      have ih: "length (backoffs ev2) \<le> nat (n - (k + 1))
         \<and> (\<forall>i < length (backoffs ev2). \<exists>r. 0 \<le> r \<and> r \<le> 1
               \<and> backoffs ev2 ! i = backoff (base_backoff c) (k + 1 + int i) r)"
        using True rec "1.prems"(2) rs by (intro "1.IH") simp_all
      have bs: "backoffs ev = backoff (base_backoff c) k r # backoffs ev2"
        using ev b1 by simp
      have "nat (n - k) = Suc (nat (n - (k + 1)))" using True kn "1.prems"(2) by linarith
      then have len: "length (backoffs ev) \<le> nat (n - k)"
        using ih bs by simp
      have "\<exists>r'. 0 \<le> r' \<and> r' \<le> 1 \<and> backoffs ev ! i = backoff (base_backoff c) (k + int i) r'"
        if "i < length (backoffs ev)" for i
      proof (cases i)
        case 0
        then show ?thesis using bs r01 by auto
      next
        case (Suc j)
        then have "j < length (backoffs ev2)" using that bs by simp
        then obtain r' where "0 \<le> r' \<and> r' \<le> 1"
          "backoffs ev2 ! j = backoff (base_backoff c) (k + 1 + int j) r'"
          using ih by blast
        moreover have "k + 1 + int j = k + int i" using Suc by simp
        ultimately show ?thesis using bs Suc by auto
      qed
      then show ?thesis using len by blast
    next
      case (Return d)
      then have "ev = ev1" using "1.prems"(1) up at by simp
      then show ?thesis using af Return by simp
    next
      case (Raise e)
      then have "ev = ev1" using "1.prems"(1) up at by simp
      then show ?thesis using af Raise by simp
    qed
  qed
qed

lemma backoff_band:
  assumes "0 \<le> r" "r \<le> 1"
  shows "\<exists>j. 9 / 10 \<le> j \<and> j \<le> 11 / 10 \<and> backoff b (1 + int i) r = b * 2 ^ i * j"
proof -
  have "9 / 10 \<le> 0.9 + 0.2 * r \<and> 0.9 + 0.2 * r \<le> 11 / 10" using assms by simp
  moreover have "backoff b (1 + int i) r = b * 2 ^ i * (0.9 + 0.2 * r)"
    by (simp add: backoff_def)
  ultimately show ?thesis by blast
qed

lemma banded_increasing:
  fixes ds :: "real list"
  assumes "0 < b"
    "\<forall>i < length ds. \<exists>j. 9 / 10 \<le> j \<and> j \<le> 11 / 10 \<and> ds ! i = b * 2 ^ i * j"
  shows "sorted_wrt (<) ds"
proof -
  have "ds ! i < ds ! k" if lt: "i < k" "k < length ds" for i k
  proof -
    have "i < length ds" using lt by simp
    then obtain j where j: "j \<le> 11 / 10" "ds ! i = b * 2 ^ i * j" using assms(2) by blast
    obtain j' where j': "9 / 10 \<le> j'" "ds ! k = b * 2 ^ k * j'" using assms(2) lt(2) by blast
    have p: "(2::real) ^ Suc i \<le> 2 ^ k" using lt(1) by (intro power_increasing) simp_all
    have pos: "0 < b * 2 ^ i" using assms(1) by simp
    have "ds ! i \<le> b * 2 ^ i * (11 / 10)"
      unfolding j(2) using j(1) pos by (intro mult_left_mono) simp_all
    also have "\<dots> < b * 2 ^ i * (18 / 10)" using pos by simp
    also have "\<dots> = b * 2 ^ Suc i * (9 / 10)" by simp
    also have "\<dots> \<le> b * 2 ^ k * (9 / 10)"
      using p assms(1) by (intro mult_right_mono mult_left_mono) simp_all
    also have "\<dots> \<le> ds ! k"
      unfolding j'(2) using j'(1) assms(1) by (intro mult_left_mono) simp_all
    finally show ?thesis .
  qed
  then show ?thesis by (simp add: sorted_wrt_iff_nth_less)
qed

subsection \<open>Every failure but the last is followed by its sleep\<close>

lemma after_failure_other:
  "x \<noteq> Failure \<Longrightarrow> after_failure (x # ev) = after_failure ev"
  by (cases x) simp_all

lemma after_failure_skip:
  "Failure \<notin> set pre \<Longrightarrow> after_failure (pre @ zs) = after_failure zs"
proof (induction pre)
  case Nil
  then show ?case by simp
next
  case (Cons x pre)
  then have "x \<noteq> Failure" "Failure \<notin> set pre" by auto
  then show ?case using Cons.IH by (simp add: after_failure_other)
qed

lemma after_failure_last:
  "after_failure [Failure] = [None]" "after_failure [Failure, DeadLetter d] = [None]"
  by simp_all

lemma polls_only_no_failure: "polls_only pre \<Longrightarrow> Failure \<notin> set pre"
  by (auto simp: polls_only_def list_all_iff)

lemma on_response_no_failure:
  "on_response a k resp m = (r, m', ev) \<Longrightarrow> Failure \<notin> set ev"
  by (auto simp: on_response_def adjust_rate_def Let_def
      split: sum.splits option.splits hval.splits if_splits)

lemma try_block_no_failure:
  assumes "try_block a k m = Some (r, m', ev)"
  shows "Failure \<notin> set ev"
  using assms
proof (cases rule: try_block_cases)
  case (Rejected now cl)
  then show ?thesis by simp
next
  case (Failed now cl m2 ev2 e rest)
  then show ?thesis
    using acquire_frame[OF Failed(3)] polls_only_no_failure[of ev2] by simp
next
  case (Answered now cl m2 ev2 resp rest ev4)
  then show ?thesis
    using acquire_frame[OF Answered(3)] polls_only_no_failure[of ev2]
      on_response_no_failure[OF Answered(5)] by simp
qed

lemma attempt_shape:
  assumes "attempt c a kws k m = Some (st, m', ev)"
  shows "case st of
           Next \<Rightarrow> \<exists>pre r. r \<in> set (rands m) \<and> k \<noteq> max_attempts c
                    \<and> ev = pre @ [Failure, Backoff (backoff (base_backoff c) k r)]
                    \<and> Failure \<notin> set pre \<and> backoffs pre = []
         | Return d \<Rightarrow> Failure \<notin> set ev \<and> backoffs ev = []
         | Raise e \<Rightarrow> \<exists>pre post. ev = pre @ Failure # post \<and> Failure \<notin> set pre
                    \<and> backoffs ev = [] \<and> (post = [] \<or> (\<exists>d. post = [DeadLetter d]))"
  using assms
proof (cases rule: attempt_cases)
  case (Done d)
  then show ?thesis using try_block_no_failure[OF Done(1)] try_block_facts[OF Done(1)] by simp
next
  case (Handled e m1 ev1 x ev2)
  note nf = try_block_no_failure[OF Handled(1)]
  note tf = try_block_facts[OF Handled(1)]
  from Handled(2) show ?thesis
  proof (cases rule: handler_cases)
    case (Reraise m2)
    then show ?thesis using Handled(3,4) nf tf by auto
  next
    case (Sleep m2 r rs)
    have "r \<in> set (rands m)"
      using Sleep(4) cb_failure_frame[OF Sleep(1)] tf by auto
    then show ?thesis using Sleep Handled(3,4) nf tf by auto
  next
    case (NoSleep m2 r rs)
    then show ?thesis using Handled(3,4) nf tf by auto
  qed
qed

lemma attempts_after_failure:
  "attempts c a kws ks m = Some (res, m', ev) \<Longrightarrow>
     after_failure ev = map Some (backoffs ev) @ (case res of Raised e \<Rightarrow> [None] | _ \<Rightarrow> [])"
proof (induction ks arbitrary: m res m' ev)
  case Nil
  then show ?case by auto
next
  case (Cons k ks)
  from Cons.prems obtain st m1 ev1 where at: "attempt c a kws k m = Some (st, m1, ev1)"
    by (auto split: option.splits)
  note sh = attempt_shape[OF at]
  show ?case
  proof (cases st)
    case Next
    from Cons.prems at Next obtain ev2 where
      rec: "attempts c a kws ks m1 = Some (res, m', ev2)" and ev: "ev = ev1 @ ev2"
      by (auto split: option.splits)
    from sh Next obtain pre r where
      ev1: "ev1 = pre @ [Failure, Backoff (backoff (base_backoff c) k r)]"
      and nf: "Failure \<notin> set pre" and nb: "backoffs pre = []"
      by auto
    have "after_failure ev = after_failure (Failure # Backoff (backoff (base_backoff c) k r) # ev2)"
      using after_failure_skip[OF nf] ev ev1 by simp
    then show ?thesis using Cons.IH[OF rec] ev ev1 nb by simp
  next
    case (Return d)
    then have "ev = ev1" "res = Returned d" using Cons.prems at by simp_all
    moreover have "after_failure ev1 = []"
      using sh Return after_failure_skip[of ev1 "[]"] by simp
    ultimately show ?thesis using sh Return by simp
  next
    case (Raise e)
    then have e: "ev = ev1" "res = Raised e" using Cons.prems at by simp_all
    from sh Raise obtain pre post where ev1: "ev1 = pre @ Failure # post"
      and nf: "Failure \<notin> set pre" and nb: "backoffs ev1 = []"
      and post: "post = [] \<or> (\<exists>d. post = [DeadLetter d])"
      by auto
    have "after_failure ev1 = after_failure (Failure # post)"
      using after_failure_skip[OF nf] ev1 by simp
    also have "\<dots> = [None]" using post by auto
    finally show ?thesis using e nb by simp
  qed
qed

text \<open>
  C3: in a run of the wrapper with a positive \<^verbatim>\<open>base_backoff\<close> and random draws in
  \<open>[0, 1]\<close>, the sleep after attempt \<open>k = i + 1\<close> is
  \<open>base_backoff * 2 ^ (k - 1) * j\<close> for a jitter \<open>j\<close> between 0.9 and 1.1, the
  sleeps of the run are strictly increasing, and there are at most
  \<open>max_attempts - 1\<close> of them. No sleep is left out: every call of \<^verbatim>\<open>failure()\<close> of
  the run is followed at once by its sleep, but the last one of a run that raises; and
  an attempt \<open>k\<close> after which the loop goes on ends with \<^verbatim>\<open>failure()\<close> and one sleep
  of that length, the only sleep of line 81 in it.
\<close>

theorem backoff_schedule:
  assumes "wrapper c a kws m = Some (res, m', ev)" "0 < base_backoff c"
    "\<forall>r \<in> set (rands m). 0 \<le> r \<and> r \<le> 1"
  shows "(\<forall>i < length (backoffs ev). \<exists>j. 9 / 10 \<le> j \<and> j \<le> 11 / 10
            \<and> backoffs ev ! i = base_backoff c * 2 ^ i * j)
       \<and> sorted_wrt (<) (backoffs ev)
       \<and> length (backoffs ev) \<le> nat (max_attempts c - 1)
       \<and> after_failure ev =
           map Some (backoffs ev) @ (case res of Raised e \<Rightarrow> [None] | _ \<Rightarrow> [])
       \<and> (attempt c a kws k m0 = Some (Next, m1, ev1)
            \<and> (\<forall>r \<in> set (rands m0). 0 \<le> r \<and> r \<le> 1)
          \<longrightarrow> (\<exists>pre j. 9 / 10 \<le> j \<and> j \<le> 11 / 10
                 \<and> ev1 = pre @ [Failure, Backoff (base_backoff c * 2 ^ nat (k - 1) * j)]
                 \<and> Failure \<notin> set pre \<and> backoffs pre = []))"
proof -
  have run: "attempts c a kws [1..max_attempts c] m = Some (res, m', ev)"
    using assms(1) by (simp add: wrapper_def)
  note ab = attempts_backoffs[OF run refl assms(3)]
  have band: "\<forall>i < length (backoffs ev). \<exists>j. 9 / 10 \<le> j \<and> j \<le> 11 / 10
            \<and> backoffs ev ! i = base_backoff c * 2 ^ i * j"
  proof (intro allI impI)
    fix i assume "i < length (backoffs ev)"
    then obtain r where "0 \<le> r" "r \<le> 1"
      "backoffs ev ! i = backoff (base_backoff c) (1 + int i) r"
      using ab by blast
    then show "\<exists>j. 9 / 10 \<le> j \<and> j \<le> 11 / 10 \<and> backoffs ev ! i = base_backoff c * 2 ^ i * j"
      using backoff_band[of r "base_backoff c" i] by simp
  qed
  have srt: "sorted_wrt (<) (backoffs ev)" using assms(2) band by (rule banded_increasing)
  have af: "after_failure ev =
      map Some (backoffs ev) @ (case res of Raised e \<Rightarrow> [None] | _ \<Rightarrow> [])"
    using run by (rule attempts_after_failure)
  have one: "\<exists>pre j. 9 / 10 \<le> j \<and> j \<le> 11 / 10
                 \<and> ev1 = pre @ [Failure, Backoff (base_backoff c * 2 ^ nat (k - 1) * j)]
                 \<and> Failure \<notin> set pre \<and> backoffs pre = []"
    if at: "attempt c a kws k m0 = Some (Next, m1, ev1)"
      and rs: "\<forall>r \<in> set (rands m0). 0 \<le> r \<and> r \<le> 1"
  proof -
    from attempt_shape[OF at] obtain pre r where r: "r \<in> set (rands m0)"
      and ev1: "ev1 = pre @ [Failure, Backoff (backoff (base_backoff c) k r)]"
      and pre: "Failure \<notin> set pre" "backoffs pre = []"
      by auto
    have "9 / 10 \<le> 0.9 + 0.2 * r \<and> 0.9 + 0.2 * r \<le> 11 / 10" using r rs by auto
    moreover have "backoff (base_backoff c) k r = base_backoff c * 2 ^ nat (k - 1) * (0.9 + 0.2 * r)"
      by (simp add: backoff_def)
    ultimately show ?thesis using ev1 pre by metis
  qed
  show ?thesis using band srt ab af one by blast
qed

theorem backoff_schedule_witness:
  "map_option (\<lambda>(res, m', ev). backoffs ev)
     (wrapper \<lparr>max_attempts = 3, base_backoff = 0.3\<rparr> () ()
        (demo_machine [0, 0, 0.3, 0.3, 0.9, 0.9] [0, 0.75]
           [reply 500 Map.empty (), reply 503 Map.empty (), reply 200 Map.empty ()]))
     = Some [0.27, 0.63]
   \<and> map_option (\<lambda>(res, m', ev). after_failure ev)
     (wrapper \<lparr>max_attempts = 3, base_backoff = 0.3\<rparr> () ()
        (demo_machine [0, 0, 0.3, 0.3, 0.9, 0.9] [0, 0.75]
           [reply 500 Map.empty (), reply 503 Map.empty (), reply 200 Map.empty ()]))
     = Some [Some 0.27, Some 0.63]
   \<and> sorted_wrt (<) [0.27, 0.63 :: real]
   \<and> list_all (\<lambda>r. 0 \<le> r \<and> r \<le> 1) [0, 0.75 :: real]
   \<and> attempt \<lparr>max_attempts = 3, base_backoff = 0.3\<rparr> () () 2
        (demo_machine [0.3, 0.3] [0.75] [reply 503 Map.empty ()]) =
      Some (Next,
            \<lparr>rl = \<lparr>rate = 100, capacity = 200, tokens = 199, ts = 0.3\<rparr>,
             cb = \<lparr>fail_threshold = 5, reset_after = 15, fail_count = 1, open_until = 0\<rparr>,
             dead_letter = [], clock = [], rands = [], outs = []\<rparr>,
            [Call (reply 503 Map.empty ()), Failure, Backoff 0.63])"
proof -
  let ?c = "\<lparr>max_attempts = 3, base_backoff = 0.3\<rparr>"
  let ?m = "demo_machine [0, 0, 0.3, 0.3, 0.9, 0.9] [0, 0.75]
           [reply 500 Map.empty (), reply 503 Map.empty (), reply 200 Map.empty ()]
           :: (unit, unit, unit) machine"
  let ?m' = "\<lparr>rl = \<lparr>rate = 100, capacity = 200, tokens = 199, ts = 0.9\<rparr>,
            cb = \<lparr>fail_threshold = 5, reset_after = 15, fail_count = 0, open_until = 0\<rparr>,
            dead_letter = [], clock = [], rands = [], outs = []\<rparr> :: (unit, unit, unit) machine"
  let ?ev = "[Call (reply 500 Map.empty ()), Failure, Backoff 0.27,
            Call (reply 503 Map.empty ()), Failure, Backoff 0.63,
            Call (reply 200 Map.empty ()), Success] :: (unit, unit, unit) event list"
  let ?n = "demo_machine [0.3, 0.3] [0.75] [reply 503 Map.empty ()] :: (unit, unit, unit) machine"
  let ?n' = "\<lparr>rl = \<lparr>rate = 100, capacity = 200, tokens = 199, ts = 0.3\<rparr>,
             cb = \<lparr>fail_threshold = 5, reset_after = 15, fail_count = 1, open_until = 0\<rparr>,
             dead_letter = [], clock = [], rands = [], outs = []\<rparr> :: (unit, unit, unit) machine"
  let ?ev' = "[Call (reply 503 Map.empty ()), Failure, Backoff 0.63] :: (unit, unit, unit) event list"
  have run: "wrapper ?c () () ?m = Some (Returned (), ?m', ?ev)"
    by (simp add: model_defs)
  have at: "attempt ?c () () 2 ?n = Some (Next, ?n', ?ev')"
    by (simp add: model_defs)
  have rs: "\<forall>r \<in> set (rands ?m). 0 \<le> r \<and> r \<le> 1" by (simp add: demo_machine_def)
  have "sorted_wrt (<) (backoffs ?ev) \<and> after_failure ?ev = map Some (backoffs ?ev)"
    using backoff_schedule[OF run _ rs, where k = 2 and ?m0.0 = ?n and ?m1.0 = ?n' and ?ev1.0 = ?ev']
    by simp
  then show ?thesis using run at by simp
qed

section \<open>Failing calls\<close>

text \<open>
  C1 asks for exactly one dead-letter entry on every failing call. On a status that is
  neither 200 nor retryable the code appends two: the entry of line 73, and then, since
  the bare \<^verbatim>\<open>raise\<close> of line 74 has no exception to raise again and raises a
  RuntimeError of its own, the entry of line 78; that RuntimeError is what the caller
  gets. The run: the demo's limiter and breaker, the default arguments, an answer 404.
\<close>

theorem non_retryable_status_recorded_twice:
  "wrapper default_config () () (demo_machine [1, 1] [] [reply 404 Map.empty ()]) =
     Some (Raised no_active_exception,
           \<lparr>rl = \<lparr>rate = 100, capacity = 200, tokens = 199, ts = 1\<rparr>,
            cb = \<lparr>fail_threshold = 5, reset_after = 15, fail_count = 1, open_until = 0\<rparr>,
            dead_letter = [\<lparr>args = (), kw = (), reason = ''status-404''\<rparr>,
                           \<lparr>args = (), kw = (), reason = ''No active exception to reraise''\<rparr>],
            clock = [], rands = [], outs = []\<rparr>,
           [Call (reply 404 Map.empty ()),
            DeadLetter \<lparr>args = (), kw = (), reason = ''status-404''\<rparr>,
            Failure,
            DeadLetter \<lparr>args = (), kw = (), reason = ''No active exception to reraise''\<rparr>])"
  by (simp add: model_defs)

text \<open>
  C2 says that a call whose attempts all end in a retryable status raises a
  MaxAttemptsExceededError and never the internal error. With three attempts answered
  500 the wrapper raises the error of line 71 itself, \<^verbatim>\<open>RuntimeError("retryable")\<close>.
\<close>

theorem retryable_error_surfaces_counterexample:
  "wrapper \<lparr>max_attempts = 3, base_backoff = 0.3\<rparr> () ()
     (demo_machine [0, 0, 0.3, 0.3, 0.9, 0.9] [0.5, 0.5]
        [reply 500 Map.empty (), reply 500 Map.empty (), reply 500 Map.empty ()]) =
     Some (Raised (Exn ''RuntimeError'' ''retryable''),
           \<lparr>rl = \<lparr>rate = 100, capacity = 200, tokens = 199, ts = 0.9\<rparr>,
            cb = \<lparr>fail_threshold = 5, reset_after = 15, fail_count = 3, open_until = 0\<rparr>,
            dead_letter = [\<lparr>args = (), kw = (), reason = ''retryable''\<rparr>],
            clock = [], rands = [], outs = []\<rparr>,
           [Call (reply 500 Map.empty ()), Failure, Backoff 0.3,
            Call (reply 500 Map.empty ()), Failure, Backoff 0.6,
            Call (reply 500 Map.empty ()), Failure,
            DeadLetter \<lparr>args = (), kw = (), reason = ''retryable''\<rparr>])
   \<and> retryable_error = Exn ''RuntimeError'' ''retryable''"
  by (simp add: model_defs)

lemma upto_from_1:
  assumes "1 \<le> (n::int)"
  shows "[1..n] \<noteq> [] \<and> last [1..n] = n \<and> n \<notin> set (butlast [1..n]) \<and> length [1..n] = nat n"
proof -
  have "[1..n] = [1..n - 1] @ [n]" using assms by (rule upto_rec2)
  then show ?thesis using assms by simp
qed

subsection \<open>Attempts that nothing hinders\<close>

lemma on_response_limiter:
  assumes "on_response a k resp m = (r, m', ev)"
  shows "tokens (rl m') = tokens (rl m) \<and> capacity (rl m') = capacity (rl m)
       \<and> ts (rl m') = ts (rl m) \<and> (0 \<le> rate (rl m) \<longrightarrow> 0 \<le> rate (rl m'))"
  using assms
  by (auto simp: on_response_def adjust_rate_def dl_append_def set_rate_def Let_def
      split: sum.splits option.splits hval.splits if_splits)

lemma backoff_nonneg: "0 \<le> b \<Longrightarrow> 0 \<le> r \<Longrightarrow> \<not> backoff b k r < 0"
  by (simp add: backoff_def not_less)

lemma attempt_unhindered:
  assumes "unhindered c (Suc j) m" "int j = max_attempts c - k"
  shows "\<exists>m' ev out rest. outs m = out # rest \<and> outs m' = rest \<and> calls ev = [out]
           \<and> dead_letters ev =
               (if j = 0 then [\<lparr>args = a, kw = kws, reason = ''retryable''\<rparr>] else [])
           \<and> attempt c a kws k m =
               Some (if j = 0 then Raise retryable_error else Next, m', ev)
           \<and> unhindered c j m'"
proof -
  from assms(1) obtain t1 t2 cl where cl: "clock m = t1 # t2 # cl"
    by (cases "clock m"; cases "tl (clock m)") (auto simp: unhindered_def)
  from assms(1) obtain out rest where os: "outs m = out # rest"
    by (cases "outs m") (auto simp: unhindered_def)
  have ro: "retryable_outcome out" and rrest: "list_all retryable_outcome (take j rest)"
    using assms(1) os by (simp_all add: unhindered_def)
  then obtain resp where resp: "out = Returns resp" by (cases out) simp_all
  have t1: "\<not> t1 < open_until (cb m)" and t2: "ts (rl m) \<le> t2" "open_until (cb m) \<le> t2"
    and srt: "sorted (t2 # cl)" and t2cl: "\<forall>t \<in> set cl. t2 \<le> t"
    and opn: "\<forall>t \<in> set cl. open_until (cb m) \<le> t"
    using assms(1) cl by (auto simp: unhindered_def list_all_iff)
  have lim: "0 \<le> rate (rl m)" "tokens (rl m) \<le> of_int (capacity (rl m))"
    "1 + of_nat j \<le> tokens (rl m)"
    using assms(1) by (simp_all add: unhindered_def add.commute)
  let ?l = "snd (acquire_poll 1 t2 (rl m))"
  have inc: "0 \<le> (t2 - ts (rl m)) * rate (rl m)" using t2(1) lim(1) by simp
  have rf: "tokens (rl m) \<le> tokens (refill t2 (rl m))"
    using inc lim(2) by (simp add: refill_def)
  then have grant: "fst (acquire_poll 1 t2 (rl m))"
    using lim(3) by (simp add: acquire_poll_def Let_def)
  have l: "tokens ?l = tokens (refill t2 (rl m)) - 1" "ts ?l = t2" "rate ?l = rate (rl m)"
    "capacity ?l = capacity (rl m)"
    using rf lim(3) by (simp_all add: acquire_poll_def Let_def)
  have lcap: "tokens ?l \<le> of_int (capacity ?l)"
    unfolding l by (simp add: refill_def)
  have ltok: "of_nat j \<le> tokens ?l" unfolding l using rf lim(3) by simp
  let ?m2 = "m\<lparr>clock := cl, rl := ?l\<rparr>"
  have acq: "acquire 1 (m\<lparr>clock := t2 # cl\<rparr>) = Some (?m2, [])"
    using grant by (subst acquire.simps) (simp add: time_time_def)
  let ?m3 = "?m2\<lparr>outs := rest\<rparr>"
  obtain r m4 ev4 where o: "on_response a kws resp ?m3 = (r, m4, ev4)"
    by (cases "on_response a kws resp ?m3") auto
  note o1 = on_response_retryable[OF o ro[unfolded resp]]
  note o2 = on_response_frame[OF o]
  note o3 = on_response_limiter[OF o]
  have tb: "try_block a kws m = Some (Inl retryable_error, m4, Call (Returns resp) # ev4)"
    using cl t1 acq os resp o o1
    by (simp add: try_block_def time_time_def before_def call_fn_def)
  have m4: "clock m4 = cl" "rands m4 = rands m" "outs m4 = rest" "cb m4 = cb m"
    "tokens (rl m4) = tokens ?l" "ts (rl m4) = t2" "capacity (rl m4) = capacity (rl m)"
    "0 \<le> rate (rl m4)"
    using o1 o2 o3 l lim(1) by simp_all
  have nt: "\<not> fail_threshold (bump (cb m4)) \<le> fail_count (bump (cb m4))"
    using assms(1) m4(4) by (simp add: unhindered_def bump_def)
  let ?m5 = "m4\<lparr>cb := bump (cb m4)\<rparr>"
  have f: "cb_failure m4 = Some ?m5" using nt by (simp add: cb_failure_def Let_def)
  have c4: "calls (Call (Returns resp) # ev4) = [out]" "dead_letters ev4 = []"
    using o1 o2 resp by simp_all
  have rmsg: "msg retryable_error = ''retryable''"
    by (simp add: retryable_error_def RuntimeError_def)
  have base: "0 \<le> base_backoff c" and len: "2 * j \<le> length cl"
    and fc: "fail_count (bump (cb m4)) + int j < fail_threshold (bump (cb m4))"
    and ou: "open_until (bump (cb m4)) = open_until (cb m)"
    and lo: "j \<le> length rest"
    and r0: "list_all (\<lambda>r. 0 \<le> r) (rands m)" and jr: "j \<le> length (rands m)"
    using assms(1) cl os m4(4) by (simp_all add: unhindered_def bump_def)
  have clk: "list_all (\<lambda>t. t2 \<le> t \<and> open_until (cb m) \<le> t) cl"
    using t2cl opn by (simp add: list_all_iff)
  have scl: "sorted cl" using srt by simp
  have tk: "tokens ?l \<le> of_int (capacity (rl m))" using lcap l(4) by simp
  have step: "unhindered c j (m4\<lparr>cb := bump (cb m4), rands := rs', dead_letter := dl'\<rparr>)"
    if "list_all (\<lambda>r. 0 \<le> r) rs'" "j \<le> Suc (length rs')" for rs' dl'
    using that base len fc ou lo clk scl tk ltok rrest m4
    by (simp add: unhindered_def)
  show ?thesis
  proof (cases "j = 0")
    case True
    then have k: "k = max_attempts c" using assms(2) by simp
    let ?d = "\<lparr>args = a, kw = kws, reason = msg retryable_error\<rparr>"
    let ?m' = "dl_append ?d ?m5"
    let ?ev = "Call (Returns resp) # ev4 @ [Failure, DeadLetter ?d]"
    have h: "handler c a kws k retryable_error m4 = Some (Some retryable_error, ?m', [Failure, DeadLetter ?d])"
      using f k by (simp add: handler_def Let_def)
    have at: "attempt c a kws k m = Some (Raise retryable_error, ?m', ?ev)"
      using tb h by (simp add: attempt_def)
    have "?m' = m4\<lparr>cb := bump (cb m4), rands := rands m,
        dead_letter := deque_append dead_letter_maxlen ?d (dead_letter m4)\<rparr>"
      using m4(2) by (simp add: dl_append_def)
    then have u: "unhindered c j ?m'" using step[OF r0] True by simp
    have "outs ?m' = rest" using m4(3) by (simp add: dl_append_def)
    then show ?thesis
      using True os at u c4 rmsg
      by (intro exI[of _ ?m'] exI[of _ ?ev] exI[of _ out] exI[of _ rest]) simp
  next
    case False
    then have k: "k \<noteq> max_attempts c" using assms(2) by simp
    from False jr obtain x rs where rs: "rands m = x # rs" by (cases "rands m") auto
    have x0: "0 \<le> x" and rs0: "list_all (\<lambda>r. 0 \<le> r) rs" and jrs: "j \<le> Suc (length rs)"
      using r0 jr rs by simp_all
    have nb: "\<not> backoff (base_backoff c) k x < 0"
      using base x0 by (rule backoff_nonneg)
    let ?m6 = "?m5\<lparr>rands := rs\<rparr>"
    let ?ev = "Call (Returns resp) # ev4 @ [Failure, Backoff (backoff (base_backoff c) k x)]"
    have h: "handler c a kws k retryable_error m4 =
        Some (None, ?m6, [Failure, Backoff (backoff (base_backoff c) k x)])"
      using f k rs m4(2) nb retryable_error_kept by (simp add: handler_def random_random_def)
    have at: "attempt c a kws k m = Some (Next, ?m6, ?ev)"
      using tb h by (simp add: attempt_def)
    have "?m6 = m4\<lparr>cb := bump (cb m4), rands := rs, dead_letter := dead_letter m4\<rparr>"
      by simp
    then have u: "unhindered c j ?m6" using step[OF rs0 jrs, of "dead_letter m4"] by simp
    show ?thesis
      using False os at u c4 m4(3)
      by (intro exI[of _ ?m6] exI[of _ ?ev] exI[of _ out] exI[of _ rest]) simp
  qed
qed


lemma attempts_unhindered:
  assumes "unhindered c (nat (n - k + 1)) m" "n = max_attempts c" "k \<le> n"
  shows "\<exists>m' ev. attempts c a kws [k..n] m = Some (Raised retryable_error, m', ev)
           \<and> calls ev = take (nat (n - k + 1)) (outs m)
           \<and> dead_letters ev = [\<lparr>args = a, kw = kws, reason = ''retryable''\<rparr>]"
  using assms
proof (induction k n arbitrary: m rule: upto.induct)
  case (1 k n)
  let ?j = "nat (n - k)"
  have sj: "nat (n - k + 1) = Suc ?j" using "1.prems"(3) by simp
  have up: "[k..n] = k # [k + 1..n]" using "1.prems"(3) by (simp add: upto_rec1)
  have jk: "int ?j = max_attempts c - k" using "1.prems"(2,3) by simp
  from attempt_unhindered[OF "1.prems"(1)[unfolded sj] jk, of a kws]
  obtain m1 ev1 out rest where os: "outs m = out # rest" "outs m1 = rest"
    and c1: "calls ev1 = [out]"
    and d1: "dead_letters ev1 = (if ?j = 0 then [\<lparr>args = a, kw = kws, reason = ''retryable''\<rparr>] else [])"
    and at: "attempt c a kws k m = Some (if ?j = 0 then Raise retryable_error else Next, m1, ev1)"
    and u: "unhindered c ?j m1"
    by blast
  show ?case
  proof (cases "?j = 0")
    case True
    then have "attempts c a kws [k..n] m = Some (Raised retryable_error, m1, ev1)"
      using up at by simp
    then show ?thesis using True c1 d1 os sj by auto
  next
    case False
    then have lt: "k + 1 \<le> n" by simp
    have j': "nat (n - (k + 1) + 1) = ?j" by simp
    from "1.IH"[OF "1.prems"(3) u[folded j'] "1.prems"(2) lt]
    obtain m' ev2 where rec: "attempts c a kws [k + 1..n] m1 = Some (Raised retryable_error, m', ev2)"
      and c2: "calls ev2 = take ?j (outs m1)"
      and d2: "dead_letters ev2 = [\<lparr>args = a, kw = kws, reason = ''retryable''\<rparr>]"
      unfolding j' by blast
    have "attempts c a kws [k..n] m = Some (Raised retryable_error, m', ev1 @ ev2)"
      using up at False rec by simp
    then show ?thesis using False c1 c2 d1 d2 os sj by auto
  qed
qed

text \<open>
  C2, as the code has it: with \<open>max_attempts \<ge> 1\<close>, a run in which each of the
  \<open>max_attempts\<close> attempts calls \<^verbatim>\<open>fn\<close> and gets a retryable outcome raises the
  error of line 71 itself; and on a machine where nothing hinders the attempts (no
  wait for tokens, breaker closed and far from its threshold) the wrapper does run to
  that end: it calls \<^verbatim>\<open>fn\<close> \<open>max_attempts\<close> times, records one dead letter with the
  reason \<^verbatim>\<open>retryable\<close> and raises that error.
\<close>

theorem exhausted_retries_reraise_retryable:
  assumes "1 \<le> max_attempts c"
  shows "(wrapper c a kws m = Some (res, m', ev) \<and> int (length (calls ev)) = max_attempts c
            \<and> list_all retryable_outcome (calls ev)
          \<longrightarrow> res = Raised retryable_error)
       \<and> (unhindered c (nat (max_attempts c)) m
          \<longrightarrow> (\<exists>m1 ev1. wrapper c a kws m = Some (Raised retryable_error, m1, ev1)
                 \<and> calls ev1 = take (nat (max_attempts c)) (outs m)
                 \<and> dead_letters ev1 = [\<lparr>args = a, kw = kws, reason = ''retryable''\<rparr>]))"
proof (intro conjI impI)
  assume h: "wrapper c a kws m = Some (res, m', ev) \<and> int (length (calls ev)) = max_attempts c
            \<and> list_all retryable_outcome (calls ev)"
  then have run: "attempts c a kws [1..max_attempts c] m = Some (res, m', ev)"
    by (simp add: wrapper_def)
  note u = upto_from_1[OF assms]
  have "int (length (calls ev)) = max_attempts c" using h by simp
  then have "length (calls ev) = nat (max_attempts c)" by linarith
  then have len: "length (calls ev) = length [1..max_attempts c]" using u by simp
  show "res = Raised retryable_error"
    using run u len h
    by (intro attempts_exhausted[of c a kws "[1..max_attempts c]" m res m' ev]) simp_all
next
  assume "unhindered c (nat (max_attempts c)) m"
  then have "unhindered c (nat (max_attempts c - 1 + 1)) m" by simp
  from attempts_unhindered[OF this refl assms, of a kws]
  show "\<exists>m1 ev1. wrapper c a kws m = Some (Raised retryable_error, m1, ev1)
                 \<and> calls ev1 = take (nat (max_attempts c)) (outs m)
                 \<and> dead_letters ev1 = [\<lparr>args = a, kw = kws, reason = ''retryable''\<rparr>]"
    by (simp add: wrapper_def)
qed

theorem exhausted_retries_reraise_retryable_witness:
  "wrapper \<lparr>max_attempts = 2, base_backoff = 0.3\<rparr> () ()
     (demo_machine [0, 0, 1, 1] [0] [reply 429 Map.empty (), reply 503 Map.empty ()]) =
     Some (Raised retryable_error,
           \<lparr>rl = \<lparr>rate = 100, capacity = 200, tokens = 199, ts = 1\<rparr>,
            cb = \<lparr>fail_threshold = 5, reset_after = 15, fail_count = 2, open_until = 0\<rparr>,
            dead_letter = [\<lparr>args = (), kw = (), reason = ''retryable''\<rparr>],
            clock = [], rands = [], outs = []\<rparr>,
           [Call (reply 429 Map.empty ()), Failure, Backoff 0.27,
            Call (reply 503 Map.empty ()), Failure,
            DeadLetter \<lparr>args = (), kw = (), reason = ''retryable''\<rparr>])
   \<and> list_all retryable_outcome [reply 429 Map.empty (), reply 503 Map.empty ()]
   \<and> unhindered \<lparr>max_attempts = 2, base_backoff = 0.3\<rparr> 2
       (demo_machine [0, 0, 1, 1] [0] [reply 429 Map.empty (), reply 503 Map.empty ()]
          :: (unit, unit, unit) machine)"
proof -
  let ?c = "\<lparr>max_attempts = 2, base_backoff = 0.3\<rparr>"
  let ?m = "demo_machine [0, 0, 1, 1] [0] [reply 429 Map.empty (), reply 503 Map.empty ()]
              :: (unit, unit, unit) machine"
  let ?m' = "\<lparr>rl = \<lparr>rate = 100, capacity = 200, tokens = 199, ts = 1\<rparr>,
            cb = \<lparr>fail_threshold = 5, reset_after = 15, fail_count = 2, open_until = 0\<rparr>,
            dead_letter = [\<lparr>args = (), kw = (), reason = ''retryable''\<rparr>],
            clock = [], rands = [], outs = []\<rparr> :: (unit, unit, unit) machine"
  let ?ev = "[Call (reply 429 Map.empty ()), Failure, Backoff 0.27,
            Call (reply 503 Map.empty ()), Failure,
            DeadLetter \<lparr>args = (), kw = (), reason = ''retryable''\<rparr>]
            :: (unit, unit, unit) event list"
  have run: "wrapper ?c () () ?m = Some (Raised (Exn ''RuntimeError'' ''retryable''), ?m', ?ev)"
    by (simp add: model_defs)
  have ok: "list_all retryable_outcome [reply 429 Map.empty (), reply 503 Map.empty ()]"
    by (simp add: model_defs)
  have cs: "calls ?ev = [reply 429 Map.empty (), reply 503 Map.empty ()]" by simp
  have un: "unhindered ?c 2 ?m"
    by (simp add: unhindered_def model_defs)
  have "Raised (Exn ''RuntimeError'' ''retryable'') = (Raised retryable_error :: unit result)"
    using exhausted_retries_reraise_retryable
      [of ?c "()" "()" ?m "Raised (Exn ''RuntimeError'' ''retryable'')" ?m' ?ev] run ok cs
    by simp
  then show ?thesis using run ok un by simp
qed

text \<open>
  The premise of the statement above is not met by the defaults of the module: with the
  breaker of the demo (threshold 5, reset after 15 seconds) and six attempts, the fifth
  answer 500 opens the breaker, the sleep before the sixth attempt is shorter than the
  reset time, and the sixth attempt is rejected: \<^verbatim>\<open>fn\<close> is called five times and the
  caller gets the circuit-open error.
\<close>

lemma demo_sixth_attempt_rejected:
  "wrapper default_config () ()
     (demo_machine [0, 0, 0.3, 0.3, 0.9, 0.9, 2.1, 2.1, 4.5, 4.5, 4.5, 9.3]
        [0.5, 0.5, 0.5, 0.5, 0.5]
        [reply 500 Map.empty (), reply 500 Map.empty (), reply 500 Map.empty (),
         reply 500 Map.empty (), reply 500 Map.empty (), reply 500 Map.empty ()]) =
     Some (Raised circuit_open,
           \<lparr>rl = \<lparr>rate = 100, capacity = 200, tokens = 199, ts = 4.5\<rparr>,
            cb = \<lparr>fail_threshold = 5, reset_after = 15, fail_count = 1, open_until = 19.5\<rparr>,
            dead_letter = [\<lparr>args = (), kw = (), reason = ''circuit-open''\<rparr>],
            clock = [], rands = [], outs = [reply 500 Map.empty ()]\<rparr>,
           [Call (reply 500 Map.empty ()), Failure, Backoff 0.3,
            Call (reply 500 Map.empty ()), Failure, Backoff 0.6,
            Call (reply 500 Map.empty ()), Failure, Backoff 1.2,
            Call (reply 500 Map.empty ()), Failure, Backoff 2.4,
            Call (reply 500 Map.empty ()), Failure, Backoff 4.8,
            Failure, DeadLetter \<lparr>args = (), kw = (), reason = ''circuit-open''\<rparr>])"
  by (simp add: model_defs)

lemma circuit_open_not_retried: "\<not> contains ''retryable'' (msg circuit_open)"
  by (simp add: circuit_open_def RuntimeError_def)

text \<open>
  C4: when the clock reading that opens an attempt is below \<open>open_until\<close> (and the
  clock has the reading line 48 may ask for), the loop, at whatever attempt \<open>k\<close> it
  is, and so the wrapper at its first, raises the circuit-open error at once:
  \<^verbatim>\<open>failure()\<close> is applied to the breaker, one entry with the reason
  \<^verbatim>\<open>circuit-open\<close> is appended, and nothing else happens: no token is taken,
  \<^verbatim>\<open>fn\<close> is not called, there is no sleep and no further attempt.
\<close>

theorem open_breaker_rejection:
  assumes "clock m = now # cl" "now < open_until (cb m)"
    "cl \<noteq> [] \<or> fail_count (cb m) + 1 < fail_threshold (cb m)"
  shows "\<exists>m'. attempts c a kws (k # ks) m =
            Some (Raised circuit_open, m',
                  [Failure, DeadLetter \<lparr>args = a, kw = kws, reason = ''circuit-open''\<rparr>])
       \<and> (1 \<le> max_attempts c \<longrightarrow> wrapper c a kws m =
            Some (Raised circuit_open, m',
                  [Failure, DeadLetter \<lparr>args = a, kw = kws, reason = ''circuit-open''\<rparr>]))
       \<and> cb m' = failure (hd cl) (cb m)
       \<and> dead_letter m' = deque_append dead_letter_maxlen
            \<lparr>args = a, kw = kws, reason = ''circuit-open''\<rparr> (dead_letter m)
       \<and> rl m' = rl m \<and> outs m' = outs m \<and> rands m' = rands m"
proof -
  let ?d = "\<lparr>args = a, kw = kws, reason = ''circuit-open''\<rparr>"
  let ?m1 = "m\<lparr>clock := cl\<rparr>"
  have tb: "try_block a kws m = Some (Inl circuit_open, ?m1, [])"
    using assms(1,2) by (simp add: try_block_def time_time_def before_def)
  obtain m2 where f: "cb_failure ?m1 = Some m2" and m2: "cb m2 = failure (hd cl) (cb m)"
    "dead_letter m2 = dead_letter m" "rl m2 = rl m" "outs m2 = outs m" "rands m2 = rands m"
  proof (cases "fail_threshold (cb m) \<le> fail_count (cb m) + 1")
    case True
    then obtain t cl' where "cl = t # cl'" using assms(3) by (cases cl) auto
    then show thesis using True
      by (intro that[of "?m1\<lparr>clock := cl', cb := trip t (bump (cb m))\<rparr>"])
         (simp_all add: cb_failure_def time_time_def failure_def bump_def Let_def)
  next
    case False
    then show thesis
      by (intro that[of "?m1\<lparr>cb := bump (cb m)\<rparr>"])
         (simp_all add: cb_failure_def failure_def bump_def Let_def)
  qed
  have h: "handler c a kws j circuit_open ?m1 =
      Some (Some circuit_open, dl_append ?d m2, [Failure, DeadLetter ?d])" for j
    using f circuit_open_not_retried
    by (simp add: handler_def Let_def circuit_open_def RuntimeError_def)
  have at: "attempt c a kws j m =
      Some (Raise circuit_open, dl_append ?d m2, [Failure, DeadLetter ?d])" for j
    using tb h by (simp add: attempt_def)
  have loop: "attempts c a kws (j # js) m =
      Some (Raised circuit_open, dl_append ?d m2, [Failure, DeadLetter ?d])" for j js
    using at by simp
  have "wrapper c a kws m = Some (Raised circuit_open, dl_append ?d m2, [Failure, DeadLetter ?d])"
    if "1 \<le> max_attempts c"
  proof -
    have "[1..max_attempts c] = 1 # [2..max_attempts c]" using that by (simp add: upto_rec1)
    then show ?thesis using loop by (simp add: wrapper_def)
  qed
  then show ?thesis
    using loop m2 by (intro exI[of _ "dl_append ?d m2"]) (simp add: dl_append_def)
qed

theorem open_breaker_rejection_witness:
  "wrapper default_config () ()
     ((demo_machine [16, 17] [] [reply 200 Map.empty ()])
        \<lparr>cb := \<lparr>fail_threshold = 5, reset_after = 15, fail_count = 4, open_until = 30\<rparr>\<rparr>) =
     Some (Raised (Exn ''RuntimeError'' ''circuit-open''),
           \<lparr>rl = limiter_init 100 200 0,
            cb = \<lparr>fail_threshold = 5, reset_after = 15, fail_count = 0, open_until = 32\<rparr>,
            dead_letter = [\<lparr>args = (), kw = (), reason = ''circuit-open''\<rparr>],
            clock = [], rands = [], outs = [reply 200 Map.empty ()]\<rparr>,
           [Failure, DeadLetter \<lparr>args = (), kw = (), reason = ''circuit-open''\<rparr>])
   \<and> (16::real) < 30"
  using open_breaker_rejection[of
      "(demo_machine [16, 17] [] [reply 200 Map.empty ()])
        \<lparr>cb := \<lparr>fail_threshold = 5, reset_after = 15, fail_count = 4, open_until = 30\<rparr>\<rparr>"
      16 "[17]" default_config "()" "()" 1 "[2, 3, 4, 5, 6]"]
  by (simp add: model_defs)

section \<open>Answers of the wrapped function\<close>

lemma call_in_calls: "Call out \<in> set ev \<Longrightarrow> out \<in> set (calls ev)"
proof (induction ev)
  case Nil
  then show ?case by simp
next
  case (Cons x ev)
  then show ?case by (cases x) auto
qed

lemma on_response_numeric:
  assumes "on_response a k resp m = (r, m', ev)" "new_rps resp = Some (Numeric v)"
  shows "rl m' = set_rate v (rl m) \<and> (\<exists>post. ev = RateSet v # post)"
  using assms
  by (auto simp: on_response_def adjust_rate_def dl_append_def Let_def
      split: option.splits if_splits)

lemma try_block_answer:
  assumes "try_block a k m = Some (r, m', ev)" "Call (Returns resp) \<in> set ev"
  obtains m3 pre post where "on_response a k resp m3 = (r, m', post)"
    "ev = pre @ Call (Returns resp) # post" "polls_only pre" "cb m3 = cb m"
    "dead_letter m3 = dead_letter m"
  using assms(1)
proof (cases rule: try_block_cases)
  case (Rejected now cl)
  then show ?thesis using assms(2) by simp
next
  case (Failed now cl m2 ev2 e rest)
  then have "calls ev = [Raises e]"
    using acquire_frame[OF Failed(3)] polls_only_projections[of ev2] by simp
  then show ?thesis using call_in_calls[OF assms(2)] by simp
next
  case (Answered now cl m2 ev2 resp' rest ev4)
  then have "calls ev = [Returns resp']"
    using acquire_frame[OF Answered(3)] polls_only_projections[of ev2]
      on_response_frame[OF Answered(5)] by simp
  then have "resp' = resp" using call_in_calls[OF assms(2)] by simp
  then show ?thesis
    using Answered acquire_frame[OF Answered(3)]
    by (intro that[of "m2\<lparr>outs := rest\<rparr>" ev4 ev2]) simp_all
qed

text \<open>
  C9: when the answer of \<^verbatim>\<open>fn\<close> carries a rate header that converts to the number
  \<open>v\<close>, lines 64 to 74 begin with \<^verbatim>\<open>set_rate(v)\<close>, whatever the status; in an
  attempt \<^verbatim>\<open>set_rate(v)\<close> is the first thing that happens after the call, before
  \<^verbatim>\<open>success\<close>, \<^verbatim>\<open>failure\<close> or any dead-letter entry, and the limiter the next
  attempt starts from has the rate \<open>max 0.001 v\<close>.
\<close>

theorem rate_header_applied_first:
  assumes "new_rps resp = Some (Numeric v)"
  shows "(case on_response a kws resp m0 of
            (r, m1, ev1) \<Rightarrow> rl m1 = set_rate v (rl m0) \<and> take 1 ev1 = [RateSet v])
       \<and> (attempt c a kws k m = Some (st, m', ev) \<and> Call (Returns resp) \<in> set ev
          \<longrightarrow> rate (rl m') = max 0.001 v
              \<and> (\<exists>pre post. ev = pre @ Call (Returns resp) # RateSet v # post \<and> polls_only pre))"
proof (rule conjI)
  obtain r m1 ev1 where o: "on_response a kws resp m0 = (r, m1, ev1)"
    by (cases "on_response a kws resp m0") auto
  from on_response_numeric[OF o assms] show "case on_response a kws resp m0 of
            (r, m1, ev1) \<Rightarrow> rl m1 = set_rate v (rl m0) \<and> take 1 ev1 = [RateSet v]"
    using o by auto
next
  show "attempt c a kws k m = Some (st, m', ev) \<and> Call (Returns resp) \<in> set ev
          \<longrightarrow> rate (rl m') = max 0.001 v
              \<and> (\<exists>pre post. ev = pre @ Call (Returns resp) # RateSet v # post \<and> polls_only pre)"
  proof (rule impI)
    assume "attempt c a kws k m = Some (st, m', ev) \<and> Call (Returns resp) \<in> set ev"
    then have at: "attempt c a kws k m = Some (st, m', ev)" and cl: "Call (Returns resp) \<in> set ev"
      by simp_all
    from at show "rate (rl m') = max 0.001 v
                \<and> (\<exists>pre post. ev = pre @ Call (Returns resp) # RateSet v # post \<and> polls_only pre)"
    proof (cases rule: attempt_cases)
      case (Done d)
      from Done(1) cl obtain m3 pre post where o: "on_response a kws resp m3 = (Inr d, m', post)"
        and ev: "ev = pre @ Call (Returns resp) # post" and p: "polls_only pre"
        by (rule try_block_answer)
      from on_response_numeric[OF o assms] obtain post' where
        "rl m' = set_rate v (rl m3)" "post = RateSet v # post'" by blast
      then show ?thesis using ev p by (auto simp: set_rate_def)
    next
      case (Handled e m1 ev1 x ev2)
      have "Call (Returns resp) \<in> set ev1"
        using cl Handled(3) handler_facts[OF Handled(2)] call_in_calls[of "Returns resp" ev2]
        by auto
      with Handled(1) obtain m3 pre post where o: "on_response a kws resp m3 = (Inl e, m1, post)"
        and ev1: "ev1 = pre @ Call (Returns resp) # post" and p: "polls_only pre"
        by (rule try_block_answer)
      from on_response_numeric[OF o assms] obtain post' where
        "rl m1 = set_rate v (rl m3)" "post = RateSet v # post'" by blast
      then show ?thesis
        using ev1 p Handled(3) handler_facts[OF Handled(2)] by (auto simp: set_rate_def)
    qed
  qed
qed

theorem rate_header_applied_first_witness:
  "attempt default_config () () 1
     (demo_machine [0, 0] [0.5] [reply 429 [''X-Rate-Limit-RPS'' \<mapsto> Numeric 2] ()]) =
     Some (Next,
           \<lparr>rl = \<lparr>rate = 2, capacity = 200, tokens = 199, ts = 0\<rparr>,
            cb = \<lparr>fail_threshold = 5, reset_after = 15, fail_count = 1, open_until = 0\<rparr>,
            dead_letter = [], clock = [], rands = [], outs = []\<rparr>,
           [Call (reply 429 [''X-Rate-Limit-RPS'' \<mapsto> Numeric 2] ()), RateSet 2,
            Failure, Backoff 0.3])
   \<and> wrapper default_config () ()
       \<lparr>rl = limiter_init 100 1 0, cb = breaker_init 5 15, dead_letter = [],
        clock = [0, 0, 0.35, 0.35, 0.5], rands = [0.5, 0.5],
        outs = [reply 429 [''X-Rate-Limit-RPS'' \<mapsto> Numeric 2] (), reply 200 Map.empty ()]\<rparr> =
     Some (Returned (),
           \<lparr>rl = \<lparr>rate = 2, capacity = 1, tokens = 0, ts = 0.5\<rparr>,
            cb = \<lparr>fail_threshold = 5, reset_after = 15, fail_count = 0, open_until = 0\<rparr>,
            dead_letter = [], clock = [], rands = [], outs = []\<rparr>,
           [Call (reply 429 [''X-Rate-Limit-RPS'' \<mapsto> Numeric 2] ()), RateSet 2,
            Failure, Backoff 0.3, PollSleep 0.02,
            Call (reply 200 Map.empty ()), Success])"
proof -
  let ?h = "[''X-Rate-Limit-RPS'' \<mapsto> Numeric 2]"
  let ?m = "demo_machine [0, 0] [0.5] [reply 429 ?h ()] :: (unit, unit, unit) machine"
  let ?m' = "\<lparr>rl = \<lparr>rate = 2, capacity = 200, tokens = 199, ts = 0\<rparr>,
            cb = \<lparr>fail_threshold = 5, reset_after = 15, fail_count = 1, open_until = 0\<rparr>,
            dead_letter = [], clock = [], rands = [], outs = []\<rparr> :: (unit, unit, unit) machine"
  let ?ev = "[Call (reply 429 ?h ()), RateSet 2, Failure, Backoff 0.3]
            :: (unit, unit, unit) event list"
  have run: "attempt default_config () () 1 ?m = Some (Next, ?m', ?ev)"
    by (simp add: model_defs)
  have c: "Call (Returns \<lparr>status = Some 429, headers = Some ?h, data = Some ()\<rparr>) \<in> set ?ev"
    by (simp add: reply_def)
  have h: "new_rps \<lparr>status = Some 429, headers = Some ?h, data = Some ()\<rparr> = Some (Numeric 2)"
    by (simp add: new_rps_def)
  have "rate (rl ?m') = max 0.001 2"
    using rate_header_applied_first[OF h, where c = default_config and a = "()" and kws = "()"
        and k = 1 and m = ?m and st = Next and m' = ?m' and ev = ?ev] run c
    by simp
  then show ?thesis using run by (simp add: model_defs)
qed

lemma status_absent_reads_200:
  "on_response a kws (resp\<lparr>status := None\<rparr>) m = on_response a kws (resp\<lparr>status := Some 200\<rparr>) m"
proof -
  have a: "adjust_rate (resp\<lparr>status := x\<rparr>) m = adjust_rate resp m" for x
    by (simp add: adjust_rate_def new_rps_def)
  have s: "status_or_200 (resp\<lparr>status := None\<rparr>) = 200"
    "status_or_200 (resp\<lparr>status := Some 200\<rparr>) = 200"
    by (simp_all add: status_or_200_def)
  show ?thesis by (auto simp: on_response_def a s split: sum.splits)
qed

lemma on_response_absent_status:
  assumes "on_response a kws resp m = (r, m', ev)" "status resp = None" "data resp = Some d"
    "\<forall>e. new_rps resp \<noteq> Some (Malformed e)"
  shows "r = Inr d \<and> fail_count (cb m') = 0 \<and> last ev = Success \<and> dead_letters ev = []
       \<and> dead_letter m' = dead_letter m"
  using assms
  by (auto simp: on_response_def adjust_rate_def status_or_200_def success_def
      split: option.splits hval.splits)

text \<open>
  C10: an answer without the key \<^verbatim>\<open>status\<close> is handled exactly as the same answer
  with status 200; when it has a payload (and no rate header that \<^verbatim>\<open>float\<close> rejects)
  lines 64 to 74 call \<^verbatim>\<open>success\<close> and return the payload, and the attempt that got
  the answer returns the payload, having called \<^verbatim>\<open>success\<close> last, counted no failure
  and recorded no dead letter.
\<close>

theorem absent_status_is_success:
  "on_response a kws (resp\<lparr>status := None\<rparr>) m = on_response a kws (resp\<lparr>status := Some 200\<rparr>) m
   \<and> (status resp = None \<and> data resp = Some d \<and> (\<forall>e. new_rps resp \<noteq> Some (Malformed e))
      \<longrightarrow> (case on_response a kws resp m of
             (r, m1, ev1) \<Rightarrow> r = Inr d \<and> last ev1 = Success \<and> dead_letters ev1 = []
                \<and> cb m1 = success (cb m) \<and> dead_letter m1 = dead_letter m))
   \<and> (attempt c a kws k m = Some (st, m', ev) \<and> Call (Returns resp) \<in> set ev
        \<and> status resp = None \<and> data resp = Some d \<and> (\<forall>e. new_rps resp \<noteq> Some (Malformed e))
      \<longrightarrow> st = Return d \<and> last ev = Success \<and> Failure \<notin> set ev \<and> dead_letters ev = []
          \<and> fail_count (cb m') = 0 \<and> dead_letter m' = dead_letter m)"
proof (intro conjI impI)
  show "on_response a kws (resp\<lparr>status := None\<rparr>) m = on_response a kws (resp\<lparr>status := Some 200\<rparr>) m"
    by (rule status_absent_reads_200)
next
  assume h: "status resp = None \<and> data resp = Some d \<and> (\<forall>e. new_rps resp \<noteq> Some (Malformed e))"
  then show "case on_response a kws resp m of
             (r, m1, ev1) \<Rightarrow> r = Inr d \<and> last ev1 = Success \<and> dead_letters ev1 = []
                \<and> cb m1 = success (cb m) \<and> dead_letter m1 = dead_letter m"
    by (auto simp: on_response_def adjust_rate_def status_or_200_def
        split: option.splits hval.splits)
next
  assume h: "attempt c a kws k m = Some (st, m', ev) \<and> Call (Returns resp) \<in> set ev
        \<and> status resp = None \<and> data resp = Some d \<and> (\<forall>e. new_rps resp \<noteq> Some (Malformed e))"
  then have at: "attempt c a kws k m = Some (st, m', ev)" and cl: "Call (Returns resp) \<in> set ev"
    and s: "status resp = None" and d: "data resp = Some d"
    and nm: "\<forall>e. new_rps resp \<noteq> Some (Malformed e)" by simp_all
  from at have "st = Return d \<and> last ev = Success \<and> Failure \<notin> set ev \<and> dead_letters ev = []
          \<and> fail_count (cb m') = 0 \<and> dead_letter m' = dead_letter m"
  proof (cases rule: attempt_cases)
    case (Done d')
    from Done(1) cl obtain m3 pre post where o: "on_response a kws resp m3 = (Inr d', m', post)"
      and ev: "ev = pre @ Call (Returns resp) # post" and p: "polls_only pre"
      and fr: "dead_letter m3 = dead_letter m"
      by (rule try_block_answer)
    note f = on_response_absent_status[OF o s d nm]
    have post: "post \<noteq> []" "Failure \<notin> set post"
      using o s d nm
      by (auto simp: on_response_def adjust_rate_def status_or_200_def
          split: option.splits hval.splits)
    have "Failure \<notin> set pre" using p by (auto simp: polls_only_def list_all_iff)
    then show ?thesis
      using f ev post Done(2) polls_only_projections[OF p] fr by simp
  next
    case (Handled e m1 ev1 x ev2)
    have "Call (Returns resp) \<in> set ev1"
      using cl Handled(3) handler_facts[OF Handled(2)] call_in_calls[of "Returns resp" ev2]
      by auto
    with Handled(1) obtain m3 where "\<exists>post. on_response a kws resp m3 = (Inl e, m1, post)"
      by (rule try_block_answer) blast
    then obtain post where o: "on_response a kws resp m3 = (Inl e, m1, post)" by blast
    then show ?thesis using on_response_absent_status[OF o s d nm] by simp
  qed
  then show "st = Return d" "last ev = Success" "Failure \<notin> set ev" "dead_letters ev = []"
    "fail_count (cb m') = 0" "dead_letter m' = dead_letter m" by simp_all
qed

theorem absent_status_is_success_witness:
  "attempt default_config () () 1
     ((demo_machine [0, 0] [] [Returns \<lparr>status = None, headers = None, data = Some (7::nat)\<rparr>])
        \<lparr>cb := \<lparr>fail_threshold = 5, reset_after = 15, fail_count = 3, open_until = 0\<rparr>\<rparr>) =
     Some (Return 7,
           \<lparr>rl = \<lparr>rate = 100, capacity = 200, tokens = 199, ts = 0\<rparr>,
            cb = \<lparr>fail_threshold = 5, reset_after = 15, fail_count = 0, open_until = 0\<rparr>,
            dead_letter = [], clock = [], rands = [], outs = []\<rparr>,
           [Call (Returns \<lparr>status = None, headers = None, data = Some 7\<rparr>), Success])"
proof -
  let ?r = "\<lparr>status = None, headers = None, data = Some (7::nat)\<rparr>"
  let ?m = "(demo_machine [0, 0] [] [Returns ?r])
        \<lparr>cb := \<lparr>fail_threshold = 5, reset_after = 15, fail_count = 3, open_until = 0\<rparr>\<rparr>
        :: (unit, unit, nat) machine"
  let ?m' = "\<lparr>rl = \<lparr>rate = 100, capacity = 200, tokens = 199, ts = 0\<rparr>,
            cb = \<lparr>fail_threshold = 5, reset_after = 15, fail_count = 0, open_until = 0\<rparr>,
            dead_letter = [], clock = [], rands = [], outs = []\<rparr> :: (unit, unit, nat) machine"
  let ?ev = "[Call (Returns ?r), Success] :: (unit, unit, nat) event list"
  have run: "attempt default_config () () 1 ?m = Some (Return 7, ?m', ?ev)"
    by (simp add: model_defs)
  have "Return 7 = (Return 7 :: nat step) \<and> last ?ev = Success"
    using absent_status_is_success[where a = "()" and kws = "()" and resp = ?r and m = ?m
        and c = default_config and k = 1 and st = "Return 7" and m' = ?m' and ev = ?ev and d = 7] run
    by (simp add: new_rps_def)
  then show ?thesis using run by simp
qed

section \<open>Statuses that are neither 200 nor retryable\<close>

text \<open>
  The double entry of the run with the answer 404 is what the code does on every status
  that is neither 200 nor one of the five: the attempt that gets such an answer ends with
  two dead letters, the one of line 73 and the one of line 78, and raises the
  RuntimeError of the bare \<^verbatim>\<open>raise\<close>.
\<close>

lemma on_response_other_status:
  assumes "on_response a kws resp m = (r, m', ev)" "status_or_200 resp \<noteq> 200"
    "status_or_200 resp \<notin> set retryable_statuses" "\<forall>e. new_rps resp \<noteq> Some (Malformed e)"
  shows "r = Inl no_active_exception
       \<and> dead_letters ev = [\<lparr>args = a, kw = kws, reason = ''status-'' @ str_int (status_or_200 resp)\<rparr>]"
  using assms
  by (auto simp: on_response_def adjust_rate_def Let_def split: option.splits hval.splits)

lemma no_active_exception_not_retried: "\<not> contains ''retryable'' (msg no_active_exception)"
  by (simp add: no_active_exception_def RuntimeError_def)

lemma other_status_recorded_twice:
  assumes "attempt c a kws k m = Some (st, m', ev)" "Call (Returns resp) \<in> set ev"
    "status_or_200 resp \<noteq> 200" "status_or_200 resp \<notin> set retryable_statuses"
    "\<forall>e. new_rps resp \<noteq> Some (Malformed e)"
  shows "st = Raise no_active_exception
       \<and> dead_letters ev =
           [\<lparr>args = a, kw = kws, reason = ''status-'' @ str_int (status_or_200 resp)\<rparr>,
            \<lparr>args = a, kw = kws, reason = ''No active exception to reraise''\<rparr>]"
  using assms(1)
proof (cases rule: attempt_cases)
  case (Done d)
  from Done(1) assms(2) obtain m3 where "\<exists>post. on_response a kws resp m3 = (Inr d, m', post)"
    by (rule try_block_answer) blast
  then obtain post where o: "on_response a kws resp m3 = (Inr d, m', post)" by blast
  then show ?thesis using on_response_other_status[OF o assms(3,4,5)] by simp
next
  case (Handled e m1 ev1 x ev2)
  have "Call (Returns resp) \<in> set ev1"
    using assms(2) Handled(3) handler_facts[OF Handled(2)] call_in_calls[of "Returns resp" ev2]
    by auto
  with Handled(1) obtain m3 pre post where o: "on_response a kws resp m3 = (Inl e, m1, post)"
    and ev1: "ev1 = pre @ Call (Returns resp) # post" and p: "polls_only pre"
    by (rule try_block_answer)
  note r = on_response_other_status[OF o assms(3,4,5)]
  then have e: "e = no_active_exception" by simp
  have d1: "dead_letters ev1 = [\<lparr>args = a, kw = kws, reason = ''status-'' @ str_int (status_or_200 resp)\<rparr>]"
    using ev1 r polls_only_projections[OF p] by simp
  from Handled(2) show ?thesis
  proof (cases rule: handler_cases)
    case (Reraise m2)
    then show ?thesis
      using Handled(3,4) d1 e by (simp add: no_active_exception_def RuntimeError_def)
  next
    case (Sleep m2 r rs)
    then show ?thesis using e no_active_exception_not_retried by simp
  next
    case (NoSleep m2 r rs)
    then show ?thesis using e no_active_exception_not_retried by simp
  qed
qed

end
